theory Spec2Isabelle
  imports Main "HOL-Library.AList"
begin

section \<open>The document model the anchor plugin works on\<close>

text \<open>
  The plugin is written against the model API of its host editor: nodes with attributes,
  positions, ranges, a writer and a selection. This section gives that API a concrete
  meaning on one sequence of sibling inline nodes (the children of one parent element).

  An attribute value is a String (\<open>anchorId\<close> is documented as String in
  \<open>findAnchorRange\<close> and in \<open>AnchorCommand.execute\<close>) or a boolean (the
  decorator attributes, which the command writes as \<open>true\<close>). The attributes of a
  node are a JavaScript \<open>Map\<close>: an association list in insertion order, read with
  \<open>map_of\<close>, written with \<open>AList.update\<close> and \<open>AList.delete\<close>.
\<close>

datatype attr_value = StrVal string | BoolVal bool

type_synonym attributes = "(string \<times> attr_value) list"

datatype node =
    is_Text: Text (data: string) (attrs: attributes)
  | Element (name: string) (attrs: attributes)

text \<open>A text node occupies one offset for each character, any other node one offset.\<close>

fun offsetSize :: "node \<Rightarrow> nat" where
  "offsetSize (Text d a) = length d"
| "offsetSize (Element nm a) = 1"

definition getAttribute :: "node \<Rightarrow> string \<Rightarrow> attr_value option" where
  "getAttribute n key = map_of (attrs n) key"

definition maxOffset :: "node list \<Rightarrow> nat" where
  "maxOffset ns = sum_list (map offsetSize ns)"

text \<open>
  A position is an offset among the children; a node is named by its index among them.
  \<open>offsetToIndex\<close> is the index of the child that occupies an offset, and the number
  of children when the offset is the end of the parent.
\<close>

fun offsetToIndex :: "node list \<Rightarrow> nat \<Rightarrow> nat" where
  "offsetToIndex [] p = 0"
| "offsetToIndex (n # ns) p =
     (if p < offsetSize n then 0 else Suc (offsetToIndex ns (p - offsetSize n)))"

definition startOffset :: "node list \<Rightarrow> nat \<Rightarrow> nat" where
  "startOffset doc i = maxOffset (take i doc)"

definition endOffset :: "node list \<Rightarrow> nat \<Rightarrow> nat" where
  "endOffset doc i = startOffset doc i + offsetSize (doc ! i)"

text \<open>
  \<open>position.textNode\<close> is the text node the position is strictly inside of, else
  \<open>null\<close>; \<open>position.nodeBefore\<close> and \<open>position.nodeAfter\<close> are the
  neighbours of a position between two nodes, and \<open>null\<close> inside a text node.
  \<open>None\<close> stands for \<open>null\<close>.
\<close>

definition textNode :: "node list \<Rightarrow> nat \<Rightarrow> nat option" where
  "textNode doc p =
     (let i = offsetToIndex doc p
      in if i < length doc \<and> is_Text (doc ! i) \<and> startOffset doc i < p then Some i else None)"

definition nodeAfter :: "node list \<Rightarrow> nat \<Rightarrow> nat option" where
  "nodeAfter doc p =
     (if textNode doc p = None
      then (let i = offsetToIndex doc p in if i < length doc then Some i else None)
      else None)"

definition nodeBefore :: "node list \<Rightarrow> nat \<Rightarrow> nat option" where
  "nodeBefore doc p =
     (if textNode doc p = None
      then (let i = offsetToIndex doc p in if 0 < i then Some (i - 1) else None)
      else None)"

definition previousSibling :: "node list \<Rightarrow> nat \<Rightarrow> nat option" where
  "previousSibling doc i = (if 0 < i then Some (i - 1) else None)"

definition nextSibling :: "node list \<Rightarrow> nat \<Rightarrow> nat option" where
  "nextSibling doc i = (if Suc i < length doc then Some (Suc i) else None)"

datatype side = Before | After

definition createPositionAt :: "node list \<Rightarrow> nat \<Rightarrow> side \<Rightarrow> nat" where
  "createPositionAt doc i s = (case s of Before \<Rightarrow> startOffset doc i | After \<Rightarrow> endOffset doc i)"

type_synonym range = "nat \<times> nat"

definition createRange :: "nat \<Rightarrow> nat \<Rightarrow> range" where
  "createRange s e = (s, e)"

section \<open>findAnchorRange\<close>

text \<open>
  The comparison \<open>node.getAttribute('anchorId') == value\<close>. Both sides are a String,
  a boolean or \<open>undefined\<close> (\<open>None\<close>). On two Strings, two booleans and on
  \<open>undefined\<close> JavaScript's \<open>==\<close> is equality, and \<open>undefined\<close> equals
  no String and no boolean. A String against a boolean would be compared as numbers; the
  identifier is a String on both sides wherever the plugin calls the resolver, and the model
  takes a String and a boolean as different.
\<close>

definition loose_eq :: "attr_value option \<Rightarrow> attr_value option \<Rightarrow> bool" where
  "loose_eq a b = (a = b)"

text \<open>
  The loop of \<open>_findBound\<close>: \<open>node\<close> is the node under examination, \<open>lastNode\<close>
  the last one that matched.
\<close>

function walk ::
  "node list \<Rightarrow> attr_value option \<Rightarrow> bool \<Rightarrow> nat option \<Rightarrow> nat option \<Rightarrow> nat option" where
  "walk doc v lookBack None lastNode = lastNode"
| "walk doc v lookBack (Some i) lastNode =
     (if loose_eq (getAttribute (doc ! i) ''anchorId'') v
      then walk doc v lookBack
             (if lookBack then previousSibling doc i else nextSibling doc i) (Some i)
      else lastNode)"
  by pat_completeness auto
termination
  by (relation "measure (\<lambda>(doc, v, lookBack, node, lastNode).
        case node of None \<Rightarrow> 0
        | Some i \<Rightarrow> if lookBack then Suc i else Suc (length doc - i))")
     (auto simp: previousSibling_def nextSibling_def split: if_splits)

text \<open>
  The node the loop starts from:
  \<open>position.textNode || (lookBack ? position.nodeBefore : position.nodeAfter)\<close>.
\<close>

definition startNode :: "node list \<Rightarrow> nat \<Rightarrow> bool \<Rightarrow> nat option" where
  "startNode doc position lookBack =
     (case textNode doc position of
        Some t \<Rightarrow> Some t
      | None \<Rightarrow> if lookBack then nodeBefore doc position else nodeAfter doc position)"

definition findBound :: "node list \<Rightarrow> nat \<Rightarrow> attr_value option \<Rightarrow> bool \<Rightarrow> nat" where
  "findBound doc position v lookBack =
     (let node = startNode doc position lookBack;
          lastNode = walk doc v lookBack node None
      in case lastNode of
           Some l \<Rightarrow> createPositionAt doc l (if lookBack then Before else After)
         | None \<Rightarrow> position)"

definition findAnchorRange :: "node list \<Rightarrow> nat \<Rightarrow> attr_value option \<Rightarrow> range" where
  "findAnchorRange doc position v =
     createRange (findBound doc position v True) (findBound doc position v False)"

section \<open>The writer, the selection and the schema\<close>

text \<open>
  \<open>writer.setAttribute(key, value, range)\<close> and \<open>writer.removeAttribute(key, range)\<close>
  change the attributes of everything inside the range. A text node that the range covers in
  part is split at the boundary, and only the part inside changes. \<open>change_node g s e n\<close>
  is what becomes of the node \<open>n\<close> when the range from \<open>s\<close> to \<open>e\<close>, counted
  from the start of \<open>n\<close>, has its attributes changed by \<open>g\<close>.
\<close>

fun change_node :: "(attributes \<Rightarrow> attributes) \<Rightarrow> nat \<Rightarrow> nat \<Rightarrow> node \<Rightarrow> node list" where
  "change_node g s e (Text d a) =
     (if s < e \<and> s < length d
      then (if 0 < s then [Text (take s d) a] else [])
           @ [Text (take (e - s) (drop s d)) (g a)]
           @ (if e < length d then [Text (drop e d) a] else [])
      else [Text d a])"
| "change_node g s e (Element nm a) =
     [if s = 0 \<and> 0 < e then Element nm (g a) else Element nm a]"

fun change_range :: "(attributes \<Rightarrow> attributes) \<Rightarrow> nat \<Rightarrow> nat \<Rightarrow> node list \<Rightarrow> node list" where
  "change_range g s e [] = []"
| "change_range g s e (n # ns) =
     change_node g s e n @ change_range g (s - offsetSize n) (e - offsetSize n) ns"

definition setAttribute :: "string \<Rightarrow> attr_value \<Rightarrow> range \<Rightarrow> node list \<Rightarrow> node list" where
  "setAttribute key val r doc = change_range (AList.update key val) (fst r) (snd r) doc"

definition removeAttribute :: "string \<Rightarrow> range \<Rightarrow> node list \<Rightarrow> node list" where
  "removeAttribute key r doc = change_range (AList.delete key) (fst r) (snd r) doc"

text \<open>
  The selection: its ranges, and its own attributes (those that typed text would get).
  It is collapsed when it has exactly one range and that range is empty.
\<close>

record selection =
  sel_ranges :: "range list"
  sel_attrs :: attributes

definition isCollapsed :: "selection \<Rightarrow> bool" where
  "isCollapsed sel = (case sel_ranges sel of [r] \<Rightarrow> fst r = snd r | _ \<Rightarrow> False)"

definition getFirstPosition :: "selection \<Rightarrow> nat option" where
  "getFirstPosition sel =
     (case sel_ranges sel of [] \<Rightarrow> None | r # rs \<Rightarrow> Some (fold min (map fst rs) (fst r)))"

definition sel_hasAttribute :: "selection \<Rightarrow> string \<Rightarrow> bool" where
  "sel_hasAttribute sel key = (map_of (sel_attrs sel) key \<noteq> None)"

definition sel_getAttribute :: "selection \<Rightarrow> string \<Rightarrow> attr_value option" where
  "sel_getAttribute sel key = map_of (sel_attrs sel) key"

text \<open>
  \<open>schema.getValidRanges(ranges, attribute)\<close> walks the items of each range and
  collects the maximal sub-ranges on which \<open>schema.checkAttribute(item, attribute)\<close>
  holds. The check itself belongs to the host's schema and is a parameter here. In the walk
  \<open>off\<close> is the offset of the node under examination, and \<open>start\<close> and \<open>end\<close>
  delimit the sub-range being collected.
\<close>

type_synonym schema = "node \<Rightarrow> string \<Rightarrow> bool"

fun validWalk ::
  "schema \<Rightarrow> string \<Rightarrow> nat \<Rightarrow> nat \<Rightarrow> nat \<Rightarrow> nat \<Rightarrow> nat \<Rightarrow> node list \<Rightarrow> range list" where
  "validWalk chk attr s e off start end' [] = (if start \<noteq> end' then [(start, end')] else [])"
| "validWalk chk attr s e off start end' (n # ns) =
     (let lo = max off s; hi = min (off + offsetSize n) e
      in if lo < hi
         then (if \<not> chk n attr
               then (if start \<noteq> end' then [(start, end')] else [])
                    @ validWalk chk attr s e (off + offsetSize n) hi hi ns
               else validWalk chk attr s e (off + offsetSize n) start hi ns)
         else validWalk chk attr s e (off + offsetSize n) start end' ns)"

definition getValidRanges :: "schema \<Rightarrow> range list \<Rightarrow> string \<Rightarrow> node list \<Rightarrow> range list" where
  "getValidRanges chk ranges attr doc =
     concat (map (\<lambda>r. validWalk chk attr (fst r) (snd r) 0 (fst r) (fst r) doc) ranges)"

text \<open>
  \<open>model.insertContent(node, position)\<close> belongs to the host. For a text node at a
  position among the children it does these things, in this order.

  It asks the schema whether the parent accepts the node at the position
  (\<open>schema.checkChild\<close>, a parameter here). If not, the node does not become one of these
  children; what the host does instead is outside the model.

  It splits the text node the position is inside of and puts the node between the halves.
  A text node that now stands next to a text node with the same attributes is merged with
  it: both are taken out and a new text node with the joined data takes their place, so the
  inserted node is no longer part of the document.

  It removes from the inserted node, one by one, every attribute that
  \<open>schema.checkAttribute(node, attribute)\<close> disallows; after each removal the same
  merging applies.

  The result says whether the inserted node is still one of the children, and then gives the
  new children and its index. \<open>writer.createRangeOn(node)\<close> is the range from just
  before a node to just after it; on a node that is in no parent it throws.
\<close>

definition haveSameAttributes :: "attributes \<Rightarrow> attributes \<Rightarrow> bool" where
  "haveSameAttributes a b =
     (list_all (\<lambda>kv. map_of b (fst kv) = map_of a (fst kv)) a \<and>
      list_all (\<lambda>kv. map_of a (fst kv) = map_of b (fst kv)) b)"

fun canMerge :: "node \<Rightarrow> node \<Rightarrow> bool" where
  "canMerge (Text d a) (Text d' a') = haveSameAttributes a a'"
| "canMerge (Text d a) (Element nm a') = False"
| "canMerge (Element nm a) n = False"

fun splitNodeAtPosition :: "node list \<Rightarrow> nat \<Rightarrow> node list \<times> node list" where
  "splitNodeAtPosition [] p = ([], [])"
| "splitNodeAtPosition (n # ns) p =
     (if p < offsetSize n
      then (if p = 0 then ([], n # ns)
            else case n of
                   Text d a \<Rightarrow> ([Text (take p d) a], Text (drop p d) a # ns)
                 | Element nm a \<Rightarrow> ([], n # ns))
      else (case splitNodeAtPosition ns (p - offsetSize n) of (pre, post) \<Rightarrow> (n # pre, post)))"

text \<open>
  The nodes on either side of the position once the text node there is split: the last node
  before it and the first node after it.
\<close>

definition caretSiblings :: "node list \<Rightarrow> nat \<Rightarrow> node list" where
  "caretSiblings doc p =
     (case splitNodeAtPosition doc p of
        (pre, post) \<Rightarrow>
          (case rev pre of [] \<Rightarrow> [] | l # ls \<Rightarrow> [l]) @ (case post of [] \<Rightarrow> [] | r # rs \<Rightarrow> [r]))"

definition mergesAt :: "node list \<Rightarrow> node \<Rightarrow> node list \<Rightarrow> bool" where
  "mergesAt pre n post =
     ((case rev pre of [] \<Rightarrow> False | l # ls \<Rightarrow> canMerge l n) \<or>
      (case post of [] \<Rightarrow> False | r # rs \<Rightarrow> canMerge n r))"

fun removeAttributeOnItem :: "string \<Rightarrow> node \<Rightarrow> node" where
  "removeAttributeOnItem key (Text d a) = Text d (AList.delete key a)"
| "removeAttributeOnItem key (Element nm a) = Element nm (AList.delete key a)"

text \<open>
  \<open>schema.removeDisallowedAttributes\<close> on the inserted node \<open>n\<close>, which stands between
  \<open>pre\<close> and \<open>post\<close>; \<open>keys\<close> are the attribute names still to be looked at. The
  result is \<open>None\<close> when a removal makes the node merge with a neighbour.
\<close>

fun removeDisallowedAttributes ::
  "schema \<Rightarrow> node list \<Rightarrow> node list \<Rightarrow> string list \<Rightarrow> node \<Rightarrow> node option" where
  "removeDisallowedAttributes chk pre post [] n = Some n"
| "removeDisallowedAttributes chk pre post (key # keys) n =
     (if chk n key then removeDisallowedAttributes chk pre post keys n
      else (let n' = removeAttributeOnItem key n
            in if mergesAt pre n' post then None
               else removeDisallowedAttributes chk pre post keys n'))"

datatype inserted = Attached "node list" nat | Merged | NotAllowedHere

definition insertContent ::
  "schema \<Rightarrow> (nat \<Rightarrow> node \<Rightarrow> bool) \<Rightarrow> node \<Rightarrow> nat \<Rightarrow> node list \<Rightarrow> inserted" where
  "insertContent chk checkChild node position doc =
     (if \<not> checkChild position node then NotAllowedHere
      else case splitNodeAtPosition doc position of
             (pre, post) \<Rightarrow>
               if mergesAt pre node post then Merged
               else (case removeDisallowedAttributes chk pre post (map fst (attrs node)) node of
                       None \<Rightarrow> Merged
                     | Some node' \<Rightarrow> Attached (pre @ [node'] @ post) (length pre)))"

definition createRangeOn :: "node list \<Rightarrow> nat \<Rightarrow> range" where
  "createRangeOn doc i = (startOffset doc i, endOffset doc i)"

text \<open>
  Two schemas to evaluate the commands with: one that allows every attribute, and the schema
  as far as this plugin declares it (\<open>AnchorEditing.init\<close> allows \<open>anchorId\<close> on
  text and declares nothing for the decorators). \<open>anyPlace\<close> accepts every node at every
  position.
\<close>

definition allowAll :: schema where
  "allowAll n key = True"

definition anchorSchema :: schema where
  "anchorSchema n key = (is_Text n \<and> key = ''anchorId'')"

definition anyPlace :: "nat \<Rightarrow> node \<Rightarrow> bool" where
  "anyPlace position n = True"

section \<open>AnchorCommand.execute\<close>

text \<open>
  \<open>manualDecoratorIds\<close> is an object from attribute names to booleans: a list of pairs
  in the order of its keys. The first loop of \<open>execute\<close> sorts the names into the
  truthy and the falsy ones.
\<close>

definition truthyManualDecorators :: "(string \<times> bool) list \<Rightarrow> string list" where
  "truthyManualDecorators manualDecoratorIds = map fst (filter snd manualDecoratorIds)"

definition falsyManualDecorators :: "(string \<times> bool) list \<Rightarrow> string list" where
  "falsyManualDecorators manualDecoratorIds =
     map fst (filter (\<lambda>kb. \<not> snd kb) manualDecoratorIds)"

text \<open>
  The three writer calls that both the collapsed and the non-collapsed branch make on a
  range: set \<open>anchorId\<close>, set every truthy decorator to \<open>true\<close>, remove every falsy one.
\<close>

definition anchorRangeAttributes ::
  "string \<Rightarrow> string list \<Rightarrow> string list \<Rightarrow> range \<Rightarrow> node list \<Rightarrow> node list" where
  "anchorRangeAttributes aid truthy falsy r doc =
     fold (\<lambda>item. removeAttribute item r) falsy
       (fold (\<lambda>item. setAttribute item (BoolVal True) r) truthy
          (setAttribute ''anchorId'' (StrVal aid) r doc))"

text \<open>
  The command maps the children and the selection before the call to the children and the
  ranges of the selection after it, or to the failure that ends it. \<open>aid\<close> is the
  parameter \<open>id\<close>. The valid ranges of a non-collapsed selection are taken on the
  children as they are before the changes; the ranges of a selection do not overlap, so that
  the changes made on one of them do not reach the next.

  On the branch that inserts a text node the command calls
  \<open>writer.createRangeOn(node)\<close> on the node it handed to \<open>model.insertContent\<close>. When
  the host has merged that node with a neighbour the call throws
  (\<open>NodeWithoutParent\<close>): the exception ends the command, with the merged text already
  among the children. \<open>NotInserted\<close> stands for the case that the parent does not accept
  the node at the caret, which the model does not follow further.
\<close>

datatype failure = NodeWithoutParent | NotInserted

definition execute ::
  "schema \<Rightarrow> (nat \<Rightarrow> node \<Rightarrow> bool) \<Rightarrow> string \<Rightarrow> (string \<times> bool) list \<Rightarrow> node list \<Rightarrow> selection
     \<Rightarrow> failure + node list \<times> range list" where
  "execute chk checkChild aid manualDecoratorIds doc sel =
     (let truthy = truthyManualDecorators manualDecoratorIds;
          falsy = falsyManualDecorators manualDecoratorIds
      in if isCollapsed sel
         then (case getFirstPosition sel of
                 None \<Rightarrow> Inr (doc, sel_ranges sel)
               | Some position \<Rightarrow>
                   if sel_hasAttribute sel ''anchorId''
                   then (let anchorRange =
                               findAnchorRange doc position (sel_getAttribute sel ''anchorId'')
                         in Inr (anchorRangeAttributes aid truthy falsy anchorRange doc,
                                 [anchorRange]))
                   else if aid \<noteq> ''''
                   then (let attributes =
                               fold (\<lambda>item. AList.update item (BoolVal True)) truthy
                                 (AList.update ''anchorId'' (StrVal aid) (sel_attrs sel));
                             node = Text aid attributes
                         in case insertContent chk checkChild node position doc of
                              Attached doc' i \<Rightarrow> Inr (doc', [createRangeOn doc' i])
                            | Merged \<Rightarrow> Inl NodeWithoutParent
                            | NotAllowedHere \<Rightarrow> Inl NotInserted)
                   else Inr (doc, sel_ranges sel))
         else (let ranges = getValidRanges chk (sel_ranges sel) ''anchorId'' doc
               in Inr (fold (anchorRangeAttributes aid truthy falsy) ranges doc,
                       sel_ranges sel)))"

section \<open>UnanchorCommand.execute\<close>

text \<open>
  \<open>anchorCommand\<close> is the registered anchor command, given by the names of its manual
  decorators, or \<open>None\<close> when no such command is registered.
\<close>

definition unanchorRange :: "string list option \<Rightarrow> range \<Rightarrow> node list \<Rightarrow> node list" where
  "unanchorRange anchorCommand r doc =
     (let doc1 = removeAttribute ''anchorId'' r doc
      in case anchorCommand of
           None \<Rightarrow> doc1
         | Some manualDecorators \<Rightarrow> fold (\<lambda>item. removeAttribute item r) manualDecorators doc1)"

definition rangesToUnanchor :: "node list \<Rightarrow> selection \<Rightarrow> range list" where
  "rangesToUnanchor doc sel =
     (if isCollapsed sel
      then (case getFirstPosition sel of
              None \<Rightarrow> []
            | Some position \<Rightarrow>
                [findAnchorRange doc position (sel_getAttribute sel ''anchorId'')])
      else sel_ranges sel)"

definition unanchor_execute :: "string list option \<Rightarrow> node list \<Rightarrow> selection \<Rightarrow> node list" where
  "unanchor_execute anchorCommand doc sel =
     fold (unanchorRange anchorCommand) (rangesToUnanchor doc sel) doc"

section \<open>The document offset by offset\<close>

text \<open>
  To say what a command did to the content inside a range, whatever the way the text is cut
  into nodes, the children are read one offset at a time: a character of a text node or a
  whole element, with the attributes of its node.
\<close>

datatype content = Ch char | Obj string

type_synonym item = "content \<times> attributes"

fun items_of :: "node \<Rightarrow> item list" where
  "items_of (Text d a) = map (\<lambda>c. (Ch c, a)) d"
| "items_of (Element nm a) = [(Obj nm, a)]"

definition items :: "node list \<Rightarrow> item list" where
  "items doc = concat (map items_of doc)"

definition contentAt :: "node list \<Rightarrow> nat \<Rightarrow> content" where
  "contentAt doc off = fst (items doc ! off)"

definition attrsAt :: "node list \<Rightarrow> nat \<Rightarrow> attributes" where
  "attrsAt doc off = snd (items doc ! off)"

definition inRanges :: "range list \<Rightarrow> nat \<Rightarrow> bool" where
  "inRanges rs off = list_ex (\<lambda>r. fst r \<le> off \<and> off < snd r) rs"

text \<open>The node that occupies an offset.\<close>

definition nodeAt :: "node list \<Rightarrow> nat \<Rightarrow> node" where
  "nodeAt doc off = doc ! offsetToIndex doc off"

text \<open>
  What a change of attributes on the range from \<open>s\<close> to \<open>e\<close> does, read offset
  by offset: the items inside the range have their attributes changed by \<open>g\<close>.
\<close>

fun upd_items :: "(attributes \<Rightarrow> attributes) \<Rightarrow> nat \<Rightarrow> nat \<Rightarrow> item list \<Rightarrow> item list" where
  "upd_items g s e [] = []"
| "upd_items g s e (it # its) =
     (if s = 0 \<and> 0 < e then (fst it, g (snd it)) else it) # upd_items g (s - 1) (e - 1) its"

text \<open>
  What the writer calls of \<open>AnchorCommand.execute\<close> on one range, and those of
  \<open>UnanchorCommand.execute\<close>, do to one attribute map inside the range.
\<close>

definition anchorAttributes :: "string \<Rightarrow> string list \<Rightarrow> string list \<Rightarrow> attributes \<Rightarrow> attributes" where
  "anchorAttributes aid truthy falsy a =
     fold AList.delete falsy
       (fold (\<lambda>item. AList.update item (BoolVal True)) truthy
          (AList.update ''anchorId'' (StrVal aid) a))"

definition unanchorAttributes :: "string list option \<Rightarrow> attributes \<Rightarrow> attributes" where
  "unanchorAttributes anchorCommand a =
     (case anchorCommand of
        None \<Rightarrow> AList.delete ''anchorId'' a
      | Some manualDecorators \<Rightarrow> fold AList.delete manualDecorators (AList.delete ''anchorId'' a))"

section \<open>Offsets, indices and the walk\<close>

declare walk.simps [simp del]

lemma maxOffset_Nil [simp]: "maxOffset [] = 0" by (simp add: maxOffset_def)
lemma maxOffset_Cons [simp]: "maxOffset (n # ns) = offsetSize n + maxOffset ns" by (simp add: maxOffset_def)
lemma maxOffset_append [simp]: "maxOffset (xs @ ys) = maxOffset xs + maxOffset ys" by (simp add: maxOffset_def)

lemma offsetToIndex_le_length: "offsetToIndex xs p \<le> length xs"
  by (induction xs arbitrary: p) auto

lemma offsetToIndex_less: "p < maxOffset xs \<Longrightarrow> offsetToIndex xs p < length xs"
  by (induction xs arbitrary: p) auto

lemma offsetToIndex_append_left:
  "p < maxOffset xs \<Longrightarrow> offsetToIndex (xs @ ys) p = offsetToIndex xs p"
  by (induction xs arbitrary: p) auto

lemma offsetToIndex_append_right:
  "maxOffset xs \<le> p \<Longrightarrow> offsetToIndex (xs @ ys) p = length xs + offsetToIndex ys (p - maxOffset xs)"
  by (induction xs arbitrary: p) auto

lemma startOffset_0 [simp]: "startOffset doc 0 = 0" by (simp add: startOffset_def)
lemma startOffset_Cons_Suc [simp]: "startOffset (n # ns) (Suc i) = offsetSize n + startOffset ns i"
  by (simp add: startOffset_def)

lemma startOffset_offsetToIndex_le: "startOffset xs (offsetToIndex xs p) \<le> p"
proof (induction xs arbitrary: p)
  case Nil
  then show ?case by simp
next
  case (Cons n ns)
  show ?case
  proof (cases "p < offsetSize n")
    case True
    then show ?thesis by simp
  next
    case False
    with Cons.IH[of "p - offsetSize n"] show ?thesis by simp
  qed
qed

lemma offsetToIndex_end: "p < maxOffset xs \<Longrightarrow> p < endOffset xs (offsetToIndex xs p)"
proof (induction xs arbitrary: p)
  case Nil
  then show ?case by simp
next
  case (Cons n ns)
  show ?case
  proof (cases "p < offsetSize n")
    case True
    then show ?thesis by (simp add: endOffset_def)
  next
    case False
    with Cons.prems have "p - offsetSize n < maxOffset ns" by simp
    from Cons.IH[OF this] False show ?thesis by (simp add: endOffset_def)
  qed
qed

lemma startOffset_Suc: "i < length doc \<Longrightarrow> startOffset doc (Suc i) = endOffset doc i"
  by (simp add: startOffset_def endOffset_def take_Suc_conv_app_nth)

lemma startOffset_mono: "i \<le> j \<Longrightarrow> startOffset xs i \<le> startOffset xs j"
proof -
  assume "i \<le> j"
  then obtain k where j: "j = i + k" using le_Suc_ex by blast
  have "take (i + k) xs = take i xs @ take k (drop i xs)" by (simp add: take_add)
  then show ?thesis by (simp add: startOffset_def j)
qed

lemma startOffset_append_right:
  "length xs \<le> i \<Longrightarrow> startOffset (xs @ ys) i = maxOffset xs + startOffset ys (i - length xs)"
  by (simp add: startOffset_def)

lemma walk_match:
  "loose_eq (getAttribute (doc ! i) ''anchorId'') v \<Longrightarrow>
   walk doc v lookBack (Some i) lastNode =
     walk doc v lookBack (if lookBack then previousSibling doc i else nextSibling doc i) (Some i)"
  by (subst walk.simps(2)) simp

lemma walk_nomatch:
  "\<not> loose_eq (getAttribute (doc ! i) ''anchorId'') v \<Longrightarrow>
   walk doc v lookBack (Some i) lastNode = lastNode"
  by (subst walk.simps(2)) simp

lemma walk_back_run:
  assumes "a \<le> i"
    and "\<forall>j. a \<le> j \<and> j \<le> i \<longrightarrow> loose_eq (getAttribute (doc ! j) ''anchorId'') v"
    and "a = 0 \<or> \<not> loose_eq (getAttribute (doc ! (a - 1)) ''anchorId'') v"
  shows "walk doc v True (Some i) lastNode = Some a"
  using assms
proof (induction i arbitrary: lastNode)
  case 0
  then show ?case by (simp add: walk_match previousSibling_def walk.simps(1))
next
  case (Suc i)
  show ?case
  proof (cases "a = Suc i")
    case True
    with Suc.prems show ?thesis by (simp add: walk_match walk_nomatch previousSibling_def)
  next
    case False
    with Suc.prems have "a \<le> i" by simp
    moreover have "\<forall>j. a \<le> j \<and> j \<le> i \<longrightarrow> loose_eq (getAttribute (doc ! j) ''anchorId'') v"
      using Suc.prems(2) by simp
    ultimately have "walk doc v True (Some i) (Some (Suc i)) = Some a"
      using Suc.IH Suc.prems(3) by blast
    moreover have "loose_eq (getAttribute (doc ! Suc i) ''anchorId'') v"
      using Suc.prems by simp
    ultimately show ?thesis by (simp add: walk_match previousSibling_def)
  qed
qed

lemma walk_fwd_run:
  assumes "i \<le> b" and "b < length doc"
    and "\<forall>j. i \<le> j \<and> j \<le> b \<longrightarrow> loose_eq (getAttribute (doc ! j) ''anchorId'') v"
    and "Suc b = length doc \<or> \<not> loose_eq (getAttribute (doc ! Suc b) ''anchorId'') v"
  shows "walk doc v False (Some i) lastNode = Some b"
  using assms
proof (induction "b - i" arbitrary: i lastNode)
  case 0
  then have "i = b" by simp
  with 0 show ?case by (auto simp: walk_match walk_nomatch nextSibling_def walk.simps(1))
next
  case (Suc k)
  then have lt: "i < b" by simp
  have "walk doc v False (Some (Suc i)) (Some i) = Some b"
    using Suc.hyps(1)[of "Suc i" "Some i"] Suc.hyps(2) Suc.prems lt by simp
  moreover have "loose_eq (getAttribute (doc ! i) ''anchorId'') v"
    using Suc.prems by simp
  moreover have "Suc i < length doc" using lt Suc.prems by simp
  ultimately show ?case by (simp add: walk_match nextSibling_def)
qed

lemma findAnchorRange_run:
  assumes carry: "\<forall>n\<in>set run. getAttribute n ''anchorId'' = Some v"
    and left: "pre = [] \<or> getAttribute (last pre) ''anchorId'' \<noteq> Some v"
    and right: "post = [] \<or> getAttribute (hd post) ''anchorId'' \<noteq> Some v"
    and lo: "maxOffset pre < p" and hi: "p < maxOffset pre + maxOffset run"
  shows "findAnchorRange (pre @ run @ post) p (Some v)
           = (maxOffset pre, maxOffset pre + maxOffset run)"
proof -
  define doc where "doc = pre @ run @ post"
  define a where "a = length pre"
  define i where "i = offsetToIndex doc p"
  have run_ne: "run \<noteq> []" using lo hi by auto
  define b where "b = a + length run - 1"
  from run_ne obtain r rs where run: "run = r # rs" by (cases run) auto
  have b_lt: "b < length doc" and ab: "a \<le> b" and Sb: "Suc b = a + length run"
    by (simp_all add: b_def doc_def a_def run)
  have nth_run: "doc ! j = run ! (j - a)" if "a \<le> j" "j \<le> b" for j
  proof -
    have "j - a < length run" using that Sb by arith
    with that show ?thesis by (simp add: doc_def a_def nth_append)
  qed
  have match: "\<forall>j. a \<le> j \<and> j \<le> b \<longrightarrow> loose_eq (getAttribute (doc ! j) ''anchorId'') (Some v)"
  proof (intro allI impI)
    fix j assume j: "a \<le> j \<and> j \<le> b"
    then have "j - a < length run" using Sb by arith
    then have "run ! (j - a) \<in> set run" by simp
    with carry nth_run[of j] j show "loose_eq (getAttribute (doc ! j) ''anchorId'') (Some v)"
      by (simp add: loose_eq_def)
  qed
  have stopL: "a = 0 \<or> \<not> loose_eq (getAttribute (doc ! (a - 1)) ''anchorId'') (Some v)"
  proof (cases "pre = []")
    case True then show ?thesis by (simp add: a_def)
  next
    case False
    then have "doc ! (a - 1) = last pre"
      by (simp add: doc_def a_def nth_append last_conv_nth)
    with left False show ?thesis by (simp add: loose_eq_def)
  qed
  have stopR: "Suc b = length doc \<or> \<not> loose_eq (getAttribute (doc ! Suc b) ''anchorId'') (Some v)"
  proof (cases "post = []")
    case True then show ?thesis using Sb by (simp add: doc_def a_def)
  next
    case False
    then have "doc ! Suc b = hd post"
      using Sb by (simp add: doc_def a_def nth_append hd_conv_nth)
    with right False show ?thesis by (simp add: loose_eq_def)
  qed
  have i_eq: "i = a + offsetToIndex run (p - maxOffset pre)"
    using lo hi
    by (simp add: i_def doc_def a_def offsetToIndex_append_right offsetToIndex_append_left)
  have "offsetToIndex run (p - maxOffset pre) < length run"
    using lo hi by (intro offsetToIndex_less) simp
  then have ai: "a \<le> i" and ib: "i \<le> b" using i_eq Sb by arith+
  have i_len: "i < length doc" using ib b_lt by simp
  have start_a: "startOffset doc a = maxOffset pre"
    by (simp add: startOffset_def doc_def a_def)
  have end_b: "endOffset doc b = maxOffset pre + maxOffset run"
  proof -
    have "take (Suc b) doc = pre @ run" using Sb by (simp add: doc_def a_def)
    then have "startOffset doc (Suc b) = maxOffset pre + maxOffset run"
      by (simp add: startOffset_def)
    moreover have "startOffset doc (Suc b) = endOffset doc b"
      using b_lt by (simp add: startOffset_def endOffset_def take_Suc_conv_app_nth)
    ultimately show ?thesis by simp
  qed
  have p_lt: "p < maxOffset doc" using hi by (simp add: doc_def)
  have p_end: "p < startOffset doc i + offsetSize (doc ! i)"
    using offsetToIndex_end[OF p_lt] by (simp add: endOffset_def i_def)
  have p_start: "startOffset doc i \<le> p"
    using startOffset_offsetToIndex_le[of doc p] by (simp add: i_def)
  have bwd: "findBound doc p (Some v) True = maxOffset pre"
  proof (cases "textNode doc p")
    case (Some t)
    then have "t = i" by (auto simp: textNode_def Let_def i_def split: if_splits)
    have "\<forall>j. a \<le> j \<and> j \<le> i \<longrightarrow> loose_eq (getAttribute (doc ! j) ''anchorId'') (Some v)"
      using match ib by (meson le_trans)
    from walk_back_run[OF ai this stopL] \<open>t = i\<close>
    have "walk doc (Some v) True (Some t) None = Some a" by simp
    with Some start_a show ?thesis
      by (simp add: findBound_def startNode_def createPositionAt_def)
  next
    case None
    have "a < i"
    proof (rule ccontr)
      assume "\<not> a < i"
      with ai have ia: "i = a" by simp
      with lo start_a have lt: "startOffset doc i < p" by simp
      with None i_len have "\<not> is_Text (doc ! i)"
        by (auto simp: textNode_def Let_def i_def split: if_splits)
      then have "offsetSize (doc ! i) = 1" by (cases "doc ! i") auto
      with p_end lt show False by simp
    qed
    then have nb: "nodeBefore doc p = Some (i - 1)" and ai': "a \<le> i - 1"
      using None by (simp_all add: nodeBefore_def i_def)
    have "\<forall>j. a \<le> j \<and> j \<le> i - 1 \<longrightarrow> loose_eq (getAttribute (doc ! j) ''anchorId'') (Some v)"
      using match ib by (meson diff_le_self le_trans)
    from walk_back_run[OF ai' this stopL]
    have "walk doc (Some v) True (Some (i - 1)) None = Some a" .
    with None nb start_a show ?thesis
      by (simp add: findBound_def startNode_def createPositionAt_def)
  qed
  have fwd_walk: "walk doc (Some v) False (Some i) None = Some b"
    using walk_fwd_run[OF ib b_lt _ stopR] match ai by (meson le_trans)
  have fwd: "findBound doc p (Some v) False = maxOffset pre + maxOffset run"
  proof (cases "textNode doc p")
    case (Some t)
    then have "t = i" by (auto simp: textNode_def Let_def i_def split: if_splits)
    with Some fwd_walk end_b show ?thesis
      by (simp add: findBound_def startNode_def createPositionAt_def)
  next
    case None
    then have "nodeAfter doc p = Some i" using i_len by (simp add: nodeAfter_def i_def)
    with None fwd_walk end_b show ?thesis
      by (simp add: findBound_def startNode_def createPositionAt_def)
  qed
  show ?thesis using bwd fwd by (simp add: findAnchorRange_def createRange_def doc_def)
qed

lemma startNode_valid: "startNode doc p lookBack = Some i \<Longrightarrow> i < length doc"
  using offsetToIndex_le_length[of doc p]
  by (auto simp: startNode_def textNode_def nodeBefore_def nodeAfter_def Let_def
           split: option.splits if_splits)

lemma findBound_nomatch:
  assumes "\<forall>i. startNode doc p lookBack = Some i \<longrightarrow> getAttribute (doc ! i) ''anchorId'' \<noteq> v"
  shows "findBound doc p v lookBack = p"
proof (cases "startNode doc p lookBack")
  case None
  then show ?thesis by (simp add: findBound_def walk.simps(1))
next
  case (Some i)
  with assms have "\<not> loose_eq (getAttribute (doc ! i) ''anchorId'') v"
    by (simp add: loose_eq_def)
  then have "walk doc v lookBack (Some i) None = None" by (rule walk_nomatch)
  with Some show ?thesis by (simp add: findBound_def)
qed

lemma walk_attr_only:
  assumes "map (\<lambda>n. getAttribute n ''anchorId'') doc1 = map (\<lambda>n. getAttribute n ''anchorId'') doc2"
    and "\<forall>i. node = Some i \<longrightarrow> i < length doc1"
  shows "walk doc1 v lookBack node lastNode = walk doc2 v lookBack node lastNode"
  using assms
proof (induction doc1 v lookBack node lastNode rule: walk.induct)
  case (1 doc v lookBack lastNode)
  show ?case by (simp only: walk.simps(1))
next
  case (2 doc v lookBack i lastNode)
  have len: "length doc = length doc2" using "2.prems"(1) by (rule map_eq_imp_length_eq)
  have i: "i < length doc" using "2.prems"(2) by simp
  have "map (\<lambda>n. getAttribute n ''anchorId'') doc ! i = map (\<lambda>n. getAttribute n ''anchorId'') doc2 ! i"
    by (simp only: "2.prems"(1))
  then have same: "getAttribute (doc ! i) ''anchorId'' = getAttribute (doc2 ! i) ''anchorId''"
    using i len by simp
  show ?case
  proof (cases "loose_eq (getAttribute (doc ! i) ''anchorId'') v")
    case True
    define nxt where "nxt = (if lookBack then previousSibling doc i else nextSibling doc i)"
    have next_ok: "\<forall>j. nxt = Some j \<longrightarrow> j < length doc"
      using i by (auto simp: nxt_def previousSibling_def nextSibling_def split: if_splits)
    have sib: "(if lookBack then previousSibling doc2 i else nextSibling doc2 i) = nxt"
      by (simp add: nxt_def previousSibling_def nextSibling_def len)
    have ih: "walk doc v lookBack nxt (Some i) = walk doc2 v lookBack nxt (Some i)"
      unfolding nxt_def using "2.IH"[OF True "2.prems"(1)] next_ok[unfolded nxt_def] by blast
    have "walk doc v lookBack (Some i) lastNode = walk doc v lookBack nxt (Some i)"
      unfolding nxt_def by (rule walk_match[OF True])
    moreover have T2: "loose_eq (getAttribute (doc2 ! i) ''anchorId'') v"
      using True same by simp
    have "walk doc2 v lookBack (Some i) lastNode = walk doc2 v lookBack nxt (Some i)"
      unfolding sib[symmetric] by (rule walk_match[OF T2])
    ultimately show ?thesis using ih by simp
  next
    case False
    have "walk doc v lookBack (Some i) lastNode = lastNode" by (rule walk_nomatch[OF False])
    moreover have F2: "\<not> loose_eq (getAttribute (doc2 ! i) ''anchorId'') v"
      using False same by simp
    have "walk doc2 v lookBack (Some i) lastNode = lastNode"
      by (rule walk_nomatch[OF F2])
    ultimately show ?thesis by simp
  qed
qed

section \<open>Changes of attributes, offset by offset\<close>

lemma items_Nil [simp]: "items [] = []" by (simp add: items_def)
lemma items_Cons [simp]: "items (n # ns) = items_of n @ items ns" by (simp add: items_def)
lemma items_append [simp]: "items (xs @ ys) = items xs @ items ys" by (simp add: items_def)

lemma length_items_of [simp]: "length (items_of n) = offsetSize n" by (cases n) auto
lemma length_items [simp]: "length (items doc) = maxOffset doc"
  by (induction doc) auto

lemma length_upd_items [simp]: "length (upd_items g s e xs) = length xs"
  by (induction xs arbitrary: s e) auto

lemma upd_items_empty [simp]: "e \<le> s \<Longrightarrow> upd_items g s e xs = xs"
  by (induction xs arbitrary: s e) auto

lemma upd_items_append:
  "upd_items g s e (xs @ ys) = upd_items g s e xs @ upd_items g (s - length xs) (e - length xs) ys"
  by (induction xs arbitrary: s e) auto

lemma nth_upd_items:
  "off < length xs \<Longrightarrow>
   upd_items g s e xs ! off = (if s \<le> off \<and> off < e then (fst (xs ! off), g (snd (xs ! off))) else xs ! off)"
proof (induction xs arbitrary: s e off)
  case Nil
  then show ?case by simp
next
  case (Cons x xs)
  show ?case
  proof (cases off)
    case 0
    then show ?thesis by simp
  next
    case (Suc k)
    with Cons.prems have "k < length xs" by simp
    from Cons.IH[OF this, of "s - 1" "e - 1"] Suc show ?thesis by auto
  qed
qed

lemma upd_items_closed:
  "upd_items g s e xs =
     take s xs @ map (\<lambda>it. (fst it, g (snd it))) (take (e - s) (drop s xs)) @ drop (max s e) xs"
proof (rule nth_equalityI)
  show "length (upd_items g s e xs) =
    length (take s xs @ map (\<lambda>it. (fst it, g (snd it))) (take (e - s) (drop s xs)) @ drop (max s e) xs)"
    by auto
next
  fix i assume "i < length (upd_items g s e xs)"
  then have i: "i < length xs" by simp
  show "upd_items g s e xs ! i =
    (take s xs @ map (\<lambda>it. (fst it, g (snd it))) (take (e - s) (drop s xs)) @ drop (max s e) xs) ! i"
    using i by (auto simp: nth_upd_items nth_append min_def max_def)
qed

lemma upd_items_comp:
  "upd_items g s e (upd_items h s e xs) = upd_items (\<lambda>a. g (h a)) s e xs"
  by (induction xs arbitrary: s e) auto

lemma upd_items_beyond [simp]: "length xs \<le> s \<Longrightarrow> upd_items g s e xs = xs"
  by (induction xs arbitrary: s e) auto

lemma items_change_node:
  "items (change_node g s e n) = upd_items g s e (items_of n)"
proof (cases n)
  case (Text d a)
  show ?thesis
  proof (cases "s < e \<and> s < length d")
    case True
    then show ?thesis
      by (simp add: Text upd_items_closed take_map drop_map max_def)
  next
    case False
    then have "e \<le> s \<or> length (items_of n) \<le> s" by (auto simp: Text)
    then have "upd_items g s e (items_of n) = items_of n" by auto
    moreover have "change_node g s e n = [n]" using False by (auto simp: Text)
    ultimately show ?thesis by simp
  qed
next
  case (Element nm a)
  then show ?thesis by simp
qed

lemma items_change_range:
  "items (change_range g s e doc) = upd_items g s e (items doc)"
  by (induction doc arbitrary: s e) (simp_all add: items_change_node upd_items_append)

lemma inRanges_Nil [simp]: "inRanges [] x = False" by (simp add: inRanges_def)
lemma inRanges_Cons [simp]: "inRanges (r # rs) x = ((fst r \<le> x \<and> x < snd r) \<or> inRanges rs x)"
  by (simp add: inRanges_def)
lemma inRanges_append [simp]: "inRanges (rs @ rs') x = (inRanges rs x \<or> inRanges rs' x)"
  by (induction rs) auto

lemma inRanges_validWalk:
  assumes "en = max off0 s \<or> e \<le> off0" and "st \<le> en"
  shows "inRanges (validWalk chk attr s e off0 st en ns) x \<longleftrightarrow>
         (st \<le> x \<and> x < en) \<or>
         (max off0 s \<le> x \<and> x < e \<and> x - off0 < maxOffset ns \<and>
          chk (ns ! offsetToIndex ns (x - off0)) attr)"
  using assms
proof (induction ns arbitrary: off0 st en)
  case Nil
  then show ?case by auto
next
  case (Cons n ns)
  define k where "k = offsetSize n"
  define lo where "lo = max off0 s"
  define hi where "hi = min (off0 + k) e"
  have here: "(max off0 s \<le> x \<and> x < e \<and> x - off0 < maxOffset (n # ns) \<and>
          chk ((n # ns) ! offsetToIndex (n # ns) (x - off0)) attr) \<longleftrightarrow>
        (lo \<le> x \<and> x < hi \<and> chk n attr) \<or>
        (max (off0 + k) s \<le> x \<and> x < e \<and> x - (off0 + k) < maxOffset ns \<and>
          chk (ns ! offsetToIndex ns (x - (off0 + k))) attr)"
  proof -
    consider (A) "x < off0" | (B) "off0 \<le> x" "x - off0 < k" | (C) "off0 \<le> x" "k \<le> x - off0"
      by linarith
    then show ?thesis
    proof cases
      case A
      then show ?thesis by (simp add: lo_def)
    next
      case B
      then have "x < off0 + k" by linarith
      with B show ?thesis by (simp add: lo_def hi_def k_def[symmetric])
    next
      case C
      then have ge: "off0 + k \<le> x" by linarith
      then have "\<not> x < hi" by (simp add: hi_def)
      moreover have "x - off0 - k = x - (off0 + k)" by simp
      moreover have "\<not> x - off0 < k" using C by simp
      moreover have "(x - off0 < k + maxOffset ns) = (x - (off0 + k) < maxOffset ns)"
        using ge by linarith
      ultimately show ?thesis using ge C by (simp add: k_def[symmetric])
    qed
  qed
  have step: "validWalk chk attr s e off0 st en (n # ns) =
      (if lo < hi
       then (if \<not> chk n attr
             then (if st \<noteq> en then [(st, en)] else []) @ validWalk chk attr s e (off0 + k) hi hi ns
             else validWalk chk attr s e (off0 + k) st hi ns)
       else validWalk chk attr s e (off0 + k) st en ns)"
    by (simp add: Let_def k_def lo_def hi_def)
  define later where "later \<longleftrightarrow> (max (off0 + k) s \<le> x \<and> x < e \<and> x - (off0 + k) < maxOffset ns \<and>
          chk (ns ! offsetToIndex ns (x - (off0 + k))) attr)"
  have goal: "?case \<longleftrightarrow> (inRanges (validWalk chk attr s e off0 st en (n # ns)) x \<longleftrightarrow>
       (st \<le> x \<and> x < en) \<or> (lo \<le> x \<and> x < hi \<and> chk n attr) \<or> later)"
    unfolding here later_def by (rule refl)
  show ?case
  proof (cases "lo < hi")
    case True
    then have en: "en = lo" using Cons.prems by (auto simp: lo_def hi_def)
    have pre: "hi = max (off0 + k) s \<or> e \<le> off0 + k" using True by (auto simp: lo_def hi_def)
    show ?thesis
    proof (cases "chk n attr")
      case False
      have "inRanges (validWalk chk attr s e (off0 + k) hi hi ns) x \<longleftrightarrow> (hi \<le> x \<and> x < hi) \<or> later"
        unfolding later_def by (rule Cons.IH[OF pre]) simp
      then have ih: "inRanges (validWalk chk attr s e (off0 + k) hi hi ns) x \<longleftrightarrow> later" by auto
      have "inRanges (validWalk chk attr s e off0 st en (n # ns)) x \<longleftrightarrow> (st \<le> x \<and> x < en) \<or> later"
        using True False Cons.prems(2) by (subst step) (auto simp add: ih simp del: validWalk.simps)
      with False show ?thesis unfolding goal by simp
    next
      case chk: True
      have "st \<le> hi" using Cons.prems(2) en True by simp
      from Cons.IH[OF pre this]
      have ih: "inRanges (validWalk chk attr s e (off0 + k) st hi ns) x \<longleftrightarrow> (st \<le> x \<and> x < hi) \<or> later"
        unfolding later_def .
      have "(st \<le> x \<and> x < hi) \<longleftrightarrow> (st \<le> x \<and> x < en) \<or> (lo \<le> x \<and> x < hi)"
        using en True Cons.prems(2) by linarith
      with True chk ih show ?thesis unfolding goal
        by (subst step) (auto simp del: validWalk.simps)
    qed
  next
    case False
    have pre: "en = max (off0 + k) s \<or> e \<le> off0 + k"
      using False Cons.prems(1) by (simp add: lo_def hi_def) linarith
    from Cons.IH[OF pre Cons.prems(2)]
    have ih: "inRanges (validWalk chk attr s e (off0 + k) st en ns) x \<longleftrightarrow> (st \<le> x \<and> x < en) \<or> later"
      unfolding later_def .
    have "\<not> (lo \<le> x \<and> x < hi)" using False by linarith
    with False ih show ?thesis unfolding goal
      by (subst step) (auto simp del: validWalk.simps)
  qed
qed

lemma inRanges_getValidRanges:
  "inRanges (getValidRanges chk rs attr doc) x \<longleftrightarrow>
     inRanges rs x \<and> x < maxOffset doc \<and> chk (doc ! offsetToIndex doc x) attr"
proof (induction rs)
  case Nil
  then show ?case by (simp add: getValidRanges_def)
next
  case (Cons r rs)
  have "inRanges (validWalk chk attr (fst r) (snd r) 0 (fst r) (fst r) doc) x \<longleftrightarrow>
        (fst r \<le> x \<and> x < snd r \<and> x < maxOffset doc \<and> chk (doc ! offsetToIndex doc x) attr)"
    by (subst inRanges_validWalk) auto
  with Cons show ?case by (auto simp: getValidRanges_def)
qed

lemma map_of_fold_update:
  "map_of (fold (\<lambda>k. AList.update k v) ks a) k = (if k \<in> set ks then Some v else map_of a k)"
  by (induction ks arbitrary: a) (auto simp: update_conv')

lemma map_of_fold_delete:
  "map_of (fold AList.delete ks a) k = (if k \<in> set ks then None else map_of a k)"
  by (induction ks arbitrary: a) (auto simp: delete_conv')

lemma map_of_anchorAttributes:
  "map_of (anchorAttributes aid truthy falsy a) k =
     (if k \<in> set falsy then None
      else if k \<in> set truthy then Some (BoolVal True)
      else if k = ''anchorId'' then Some (StrVal aid)
      else map_of a k)"
  by (simp add: anchorAttributes_def map_of_fold_delete map_of_fold_update update_conv')

lemma map_of_unanchorAttributes:
  "map_of (unanchorAttributes cmd a) k =
     (if k = ''anchorId'' then None
      else case cmd of None \<Rightarrow> map_of a k
           | Some ds \<Rightarrow> if k \<in> set ds then None else map_of a k)"
  by (cases cmd) (simp_all add: unanchorAttributes_def map_of_fold_delete delete_conv')

lemma items_fold_change:
  "items (fold (\<lambda>item. change_range (f item) s e) ks doc) = upd_items (fold f ks) s e (items doc)"
proof (induction ks arbitrary: doc)
  case Nil
  have "upd_items (\<lambda>a. a) s e xs = xs" for xs
    by (induction xs arbitrary: s e) auto
  then show ?case by (simp add: id_def)
next
  case (Cons k ks)
  show ?case
    by (simp add: Cons.IH items_change_range upd_items_comp)
qed

lemma items_anchorRangeAttributes:
  "items (anchorRangeAttributes aid truthy falsy r doc) =
     upd_items (anchorAttributes aid truthy falsy) (fst r) (snd r) (items doc)"
proof -
  have 1: "items (setAttribute ''anchorId'' (StrVal aid) r doc)
             = upd_items (AList.update ''anchorId'' (StrVal aid)) (fst r) (snd r) (items doc)"
    by (simp add: setAttribute_def items_change_range)
  have 2: "(\<lambda>item. setAttribute item (BoolVal True) r)
             = (\<lambda>item. change_range (AList.update item (BoolVal True)) (fst r) (snd r))"
    by (simp add: setAttribute_def fun_eq_iff)
  have 3: "(\<lambda>item. removeAttribute item r) = (\<lambda>item. change_range (AList.delete item) (fst r) (snd r))"
    by (simp add: removeAttribute_def fun_eq_iff)
  have 4: "anchorAttributes aid truthy falsy =
      (\<lambda>a. fold AList.delete falsy
            (fold (\<lambda>item. AList.update item (BoolVal True)) truthy
              (AList.update ''anchorId'' (StrVal aid) a)))"
    by (simp add: fun_eq_iff anchorAttributes_def)
  show ?thesis
    unfolding anchorRangeAttributes_def 2 3 4
    by (simp add: items_fold_change 1 upd_items_comp)
qed

lemma items_unanchorRange:
  "items (unanchorRange cmd r doc) = upd_items (unanchorAttributes cmd) (fst r) (snd r) (items doc)"
proof -
  have 3: "(\<lambda>item. removeAttribute item r) = (\<lambda>item. change_range (AList.delete item) (fst r) (snd r))"
    by (simp add: removeAttribute_def fun_eq_iff)
  have 1: "items (removeAttribute ''anchorId'' r doc)
             = upd_items (AList.delete ''anchorId'') (fst r) (snd r) (items doc)"
    by (simp add: removeAttribute_def items_change_range)
  show ?thesis
  proof (cases cmd)
    case None
    have "unanchorAttributes None = AList.delete ''anchorId''"
      by (simp add: fun_eq_iff unanchorAttributes_def)
    with None show ?thesis
      by (simp add: unanchorRange_def 1)
  next
    case (Some ds)
    have "unanchorAttributes (Some ds) = (\<lambda>a. fold AList.delete ds (AList.delete ''anchorId'' a))"
      by (simp add: fun_eq_iff unanchorAttributes_def)
    then show ?thesis
      unfolding unanchorRange_def Let_def Some option.case 3
      by (simp add: items_fold_change 1 upd_items_comp)
  qed
qed

lemma items_fold_ranges:
  assumes "\<And>r d. items (F r d) = upd_items g (fst r) (snd r) (items d)"
  shows "items (fold F rs doc) = fold (\<lambda>r. upd_items g (fst r) (snd r)) rs (items doc)"
  by (induction rs arbitrary: doc) (simp_all add: assms)

lemma nth_fold_upd_items:
  assumes idem: "\<And>a. map_of (g (g a)) = map_of (g a)"
    and off: "off < length xs"
  shows "length (fold (\<lambda>r. upd_items g (fst r) (snd r)) rs xs) = length xs \<and>
         fst (fold (\<lambda>r. upd_items g (fst r) (snd r)) rs xs ! off) = fst (xs ! off) \<and>
         (if inRanges rs off
          then map_of (snd (fold (\<lambda>r. upd_items g (fst r) (snd r)) rs xs ! off)) = map_of (g (snd (xs ! off)))
          else snd (fold (\<lambda>r. upd_items g (fst r) (snd r)) rs xs ! off) = snd (xs ! off))"
  using off
proof (induction rs arbitrary: xs)
  case Nil
  then show ?case by simp
next
  case (Cons r rs)
  define xs1 where "xs1 = upd_items g (fst r) (snd r) xs"
  have len: "off < length xs1" using Cons.prems by (simp add: xs1_def)
  have nth1: "xs1 ! off = (if fst r \<le> off \<and> off < snd r then (fst (xs ! off), g (snd (xs ! off))) else xs ! off)"
    using Cons.prems by (simp add: xs1_def nth_upd_items)
  have len1: "length xs1 = length xs" by (simp add: xs1_def)
  have fold1: "fold (\<lambda>r. upd_items g (fst r) (snd r)) (r # rs) xs
                 = fold (\<lambda>r. upd_items g (fst r) (snd r)) rs xs1"
    by (simp add: xs1_def)
  show ?case
  proof (cases "fst r \<le> off \<and> off < snd r")
    case True
    with nth1 have "fst (xs1 ! off) = fst (xs ! off)" "snd (xs1 ! off) = g (snd (xs ! off))"
      by simp_all
    with Cons.IH[OF len] True len1 idem show ?thesis
      unfolding fold1 by (auto split: if_splits)
  next
    case False
    with nth1 have "xs1 ! off = xs ! off" by simp
    with Cons.IH[OF len] False len1 show ?thesis
      unfolding fold1 by (auto split: if_splits)
  qed
qed

section \<open>The commands on ranges\<close>

lemma range_effect:
  assumes "items doc' = upd_items g s e (items doc)"
  shows "maxOffset doc' = maxOffset doc"
    and "off < maxOffset doc \<Longrightarrow>
          contentAt doc' off = contentAt doc off \<and>
          attrsAt doc' off = (if s \<le> off \<and> off < e then g (attrsAt doc off) else attrsAt doc off)"
proof -
  have "length (items doc') = length (items doc)" by (simp only: assms length_upd_items)
  then show "maxOffset doc' = maxOffset doc" by simp
next
  assume "off < maxOffset doc"
  then have "off < length (items doc)" by simp
  then show "contentAt doc' off = contentAt doc off \<and>
          attrsAt doc' off = (if s \<le> off \<and> off < e then g (attrsAt doc off) else attrsAt doc off)"
    by (simp add: contentAt_def attrsAt_def assms nth_upd_items)
qed

lemma ranges_effect:
  assumes it: "items doc' = fold (\<lambda>r. upd_items g (fst r) (snd r)) rs (items doc)"
    and idem: "\<And>a. map_of (g (g a)) = map_of (g a)"
  shows "maxOffset doc' = maxOffset doc"
    and "off < maxOffset doc \<Longrightarrow>
          contentAt doc' off = contentAt doc off \<and>
          (if inRanges rs off then map_of (attrsAt doc' off) = map_of (g (attrsAt doc off))
           else attrsAt doc' off = attrsAt doc off)"
proof -
  have "length (fold (\<lambda>r. upd_items g (fst r) (snd r)) rs xs) = length xs" for xs
    by (induction rs arbitrary: xs) simp_all
  then have "length (items doc') = length (items doc)" by (simp only: it)
  then show "maxOffset doc' = maxOffset doc" by simp
next
  assume "off < maxOffset doc"
  then have "off < length (items doc)" by simp
  from nth_fold_upd_items[of g off "items doc" rs, OF idem this]
  show "contentAt doc' off = contentAt doc off \<and>
          (if inRanges rs off then map_of (attrsAt doc' off) = map_of (g (attrsAt doc off))
           else attrsAt doc' off = attrsAt doc off)"
    by (simp add: contentAt_def attrsAt_def it)
qed

lemma truthy_falsy_distinct:
  assumes "distinct (map fst flags)" and "(k, b) \<in> set flags"
  shows "k \<in> set (truthyManualDecorators flags) \<longleftrightarrow> b"
    and "k \<in> set (falsyManualDecorators flags) \<longleftrightarrow> \<not> b"
proof -
  have same: "b' = b" if "(k, b') \<in> set flags" for b'
    by (rule eq_key_imp_eq_value[OF assms(1) that assms(2)])
  show "k \<in> set (truthyManualDecorators flags) \<longleftrightarrow> b"
  proof
    assume "k \<in> set (truthyManualDecorators flags)"
    then obtain b' where "(k, b') \<in> set flags" and b': "b'"
      by (auto simp: truthyManualDecorators_def)
    with same[of b'] show b by simp
  next
    assume b
    with assms(2) have "(k, b) \<in> set (filter snd flags)" by simp
    then have "fst (k, b) \<in> fst ` set (filter snd flags)" by (rule imageI)
    then show "k \<in> set (truthyManualDecorators flags)"
      by (simp add: truthyManualDecorators_def)
  qed
  show "k \<in> set (falsyManualDecorators flags) \<longleftrightarrow> \<not> b"
  proof
    assume "k \<in> set (falsyManualDecorators flags)"
    then obtain b' where "(k, b') \<in> set flags" and b': "\<not> b'"
      by (auto simp: falsyManualDecorators_def)
    with same[of b'] show "\<not> b" by simp
  next
    assume "\<not> b"
    with assms(2) have "(k, b) \<in> set (filter (\<lambda>kb. \<not> snd kb) flags)" by simp
    then have "fst (k, b) \<in> fst ` set (filter (\<lambda>kb. \<not> snd kb) flags)" by (rule imageI)
    then show "k \<in> set (falsyManualDecorators flags)"
      by (simp add: falsyManualDecorators_def)
  qed
qed

lemma truthy_falsy_subset:
  "set (truthyManualDecorators flags) \<subseteq> fst ` set flags"
  "set (falsyManualDecorators flags) \<subseteq> fst ` set flags"
  by (auto simp: truthyManualDecorators_def falsyManualDecorators_def)

lemma falsy_member: "(k, False) \<in> set flags \<Longrightarrow> k \<in> set (falsyManualDecorators flags)"
  by (force simp: falsyManualDecorators_def)

lemma anchorAttributes_spec:
  assumes dist: "distinct (map fst flags)" and noid: "''anchorId'' \<notin> fst ` set flags"
    and m: "map_of a' = map_of (anchorAttributes aid (truthyManualDecorators flags) (falsyManualDecorators flags) a)"
  shows "map_of a' ''anchorId'' = Some (StrVal aid) \<and>
         (\<forall>(k, b)\<in>set flags. map_of a' k = (if b then Some (BoolVal True) else None)) \<and>
         (\<forall>k. k \<noteq> ''anchorId'' \<and> k \<notin> fst ` set flags \<longrightarrow> map_of a' k = map_of a k)"
proof (intro conjI ballI allI impI)
  show "map_of a' ''anchorId'' = Some (StrVal aid)"
    using noid truthy_falsy_subset[of flags] by (auto simp: m map_of_anchorAttributes)
next
  fix kb assume kb: "kb \<in> set flags"
  obtain k b where [simp]: "kb = (k, b)" by (cases kb)
  from truthy_falsy_distinct[OF dist, of k b] kb
  show "case kb of (k, b) \<Rightarrow> map_of a' k = (if b then Some (BoolVal True) else None)"
    by (simp add: m map_of_anchorAttributes)
next
  fix k assume "k \<noteq> ''anchorId'' \<and> k \<notin> fst ` set flags"
  then show "map_of a' k = map_of a k"
    using truthy_falsy_subset[of flags] by (auto simp: m map_of_anchorAttributes)
qed

lemma anchorAttributes_idem:
  "map_of (anchorAttributes aid tr fa (anchorAttributes aid tr fa a)) = map_of (anchorAttributes aid tr fa a)"
  by (rule ext) (simp add: map_of_anchorAttributes)

lemma unanchorAttributes_idem:
  "map_of (unanchorAttributes cmd (unanchorAttributes cmd a)) = map_of (unanchorAttributes cmd a)"
  by (rule ext) (simp add: map_of_unanchorAttributes split: option.splits)

lemma execute_collapsed_eq:
  assumes sel: "sel_ranges sel = [(p, p)]"
    and has: "map_of (sel_attrs sel) ''anchorId'' = Some v"
  shows "execute chk cc aid flags doc sel =
           Inr (anchorRangeAttributes aid (truthyManualDecorators flags) (falsyManualDecorators flags)
                  (findAnchorRange doc p (Some v)) doc,
                [findAnchorRange doc p (Some v)])"
  by (simp add: execute_def isCollapsed_def getFirstPosition_def sel_hasAttribute_def
        sel_getAttribute_def sel has Let_def)

lemma execute_non_collapsed_eq:
  assumes "\<not> isCollapsed sel"
  shows "execute chk cc aid flags doc sel =
           Inr (fold (anchorRangeAttributes aid (truthyManualDecorators flags)
                        (falsyManualDecorators flags))
                  (getValidRanges chk (sel_ranges sel) ''anchorId'' doc) doc,
                sel_ranges sel)"
  using assms by (simp add: execute_def Let_def)

lemma items_fold_anchorRanges:
  "items (fold (anchorRangeAttributes aid truthy falsy) rs doc) =
     fold (\<lambda>r. upd_items (anchorAttributes aid truthy falsy) (fst r) (snd r)) rs (items doc)"
proof -
  have "items (anchorRangeAttributes aid truthy falsy r d)
          = upd_items (anchorAttributes aid truthy falsy) (fst r) (snd r) (items d)" for r d
    by (rule items_anchorRangeAttributes)
  from items_fold_ranges[where F = "anchorRangeAttributes aid truthy falsy"
       and g = "anchorAttributes aid truthy falsy", OF this]
  show ?thesis .
qed

lemma items_unanchor_execute:
  "items (unanchor_execute cmd doc sel) =
     fold (\<lambda>r. upd_items (unanchorAttributes cmd) (fst r) (snd r)) (rangesToUnanchor doc sel) (items doc)"
proof -
  have "items (unanchorRange cmd r d) = upd_items (unanchorAttributes cmd) (fst r) (snd r) (items d)"
    for r d by (rule items_unanchorRange)
  from items_fold_ranges[where F = "unanchorRange cmd" and g = "unanchorAttributes cmd", OF this]
  show ?thesis by (simp add: unanchor_execute_def)
qed

lemma splitNodeAtPosition_spec:
  assumes "p \<le> maxOffset doc" and "splitNodeAtPosition doc p = (pre, post)"
  shows "maxOffset pre = p \<and> items (pre @ post) = items doc \<and>
         (length (pre @ post) = length doc \<or> length (pre @ post) = Suc (length doc))"
  using assms
proof (induction doc arbitrary: p pre post)
  case Nil
  then show ?case by simp
next
  case (Cons n ns)
  show ?case
  proof (cases "p < offsetSize n")
    case True
    show ?thesis
    proof (cases "p = 0")
      case True
      with Cons.prems \<open>p < offsetSize n\<close> show ?thesis by auto
    next
      case False
      with True obtain d a where n: "n = Text d a" by (cases n) auto
      from Cons.prems(2) True False
      have pre: "pre = [Text (take p d) a]" and post: "post = Text (drop p d) a # ns"
        by (simp_all add: n)
      have "items (pre @ post) = items (n # ns)"
        by (simp add: pre post n flip: map_append)
      moreover have "maxOffset pre = p" using True by (simp add: pre n)
      ultimately show ?thesis by (simp add: pre post)
    qed
  next
    case False
    obtain pre' post' where sp: "splitNodeAtPosition ns (p - offsetSize n) = (pre', post')"
      by (cases "splitNodeAtPosition ns (p - offsetSize n)")
    from Cons.prems(2) False sp have pre: "pre = n # pre'" and post: "post = post'"
      by simp_all
    have "p - offsetSize n \<le> maxOffset ns" using Cons.prems(1) False by simp
    from Cons.IH[OF this sp] False show ?thesis
      by (auto simp: pre post)
  qed
qed

lemma haveSameAttributes_lookup:
  assumes "haveSameAttributes a b"
  shows "map_of a k = Some v \<Longrightarrow> map_of b k = Some v"
    and "map_of b k = Some v \<Longrightarrow> map_of a k = Some v"
proof -
  assume m: "map_of a k = Some v"
  then have "(k, v) \<in> set a" by (rule map_of_SomeD)
  with assms have "map_of b (fst (k, v)) = map_of a (fst (k, v))"
    unfolding haveSameAttributes_def list_all_iff by blast
  with m show "map_of b k = Some v" by simp
next
  assume m: "map_of b k = Some v"
  then have "(k, v) \<in> set b" by (rule map_of_SomeD)
  with assms have "map_of a (fst (k, v)) = map_of b (fst (k, v))"
    unfolding haveSameAttributes_def list_all_iff by blast
  with m show "map_of a k = Some v" by simp
qed

lemma canMerge_anchorId:
  assumes "map_of a ''anchorId'' = Some w"
  shows "canMerge l (Text d a) \<Longrightarrow> getAttribute l ''anchorId'' = Some w"
    and "canMerge (Text d a) r \<Longrightarrow> getAttribute r ''anchorId'' = Some w"
proof -
  assume "canMerge l (Text d a)"
  then obtain d' a' where "l = Text d' a'" "haveSameAttributes a' a" by (cases l) auto
  with haveSameAttributes_lookup(2)[OF this(2) assms]
  show "getAttribute l ''anchorId'' = Some w" by (simp add: getAttribute_def)
next
  assume "canMerge (Text d a) r"
  then obtain d' a' where "r = Text d' a'" "haveSameAttributes a a'" by (cases r) auto
  with haveSameAttributes_lookup(1)[OF this(2) assms]
  show "getAttribute r ''anchorId'' = Some w" by (simp add: getAttribute_def)
qed

lemma mergesAt_anchorId:
  assumes sib: "\<forall>n\<in>set (caretSiblings doc p). getAttribute n ''anchorId'' \<noteq> Some w"
    and sp: "splitNodeAtPosition doc p = (pre, post)"
    and a: "map_of a ''anchorId'' = Some w"
  shows "\<not> mergesAt pre (Text d a) post"
proof
  assume "mergesAt pre (Text d a) post"
  then consider l ls where "rev pre = l # ls" "canMerge l (Text d a)"
    | r rs where "post = r # rs" "canMerge (Text d a) r"
    by (auto simp: mergesAt_def split: list.splits)
  then show False
  proof cases
    case 1
    then have "l \<in> set (caretSiblings doc p)" by (simp add: caretSiblings_def sp)
    with sib canMerge_anchorId(1)[OF a 1(2)] show False by blast
  next
    case 2
    then have "r \<in> set (caretSiblings doc p)" by (simp add: caretSiblings_def sp)
    with sib canMerge_anchorId(2)[OF a 2(2)] show False by blast
  qed
qed

lemma removeDisallowedAttributes_result:
  assumes idok: "\<And>b. chk (Text d b) ''anchorId''"
    and nomerge: "\<And>b. map_of b ''anchorId'' = Some w \<Longrightarrow> \<not> mergesAt pre (Text d b) post"
    and a: "map_of a ''anchorId'' = Some w"
  shows "\<exists>a'. removeDisallowedAttributes chk pre post keys (Text d a) = Some (Text d a') \<and>
              map_of a' ''anchorId'' = Some w \<and>
              (\<forall>k. map_of a' k = None \<or> map_of a' k = map_of a k) \<and>
              (\<forall>k. (\<forall>b. chk (Text d b) k) \<longrightarrow> map_of a' k = map_of a k) \<and>
              (\<forall>k. k \<in> set keys \<and> (\<forall>b. \<not> chk (Text d b) k) \<longrightarrow> map_of a' k = None)"
  using a
proof (induction keys arbitrary: a)
  case Nil
  then show ?case by simp
next
  case (Cons key keys)
  show ?case
  proof (cases "chk (Text d a) key")
    case True
    from Cons.IH[OF Cons.prems] obtain a' where
      r: "removeDisallowedAttributes chk pre post keys (Text d a) = Some (Text d a')"
      and i: "map_of a' ''anchorId'' = Some w"
      and p1: "\<forall>k. map_of a' k = None \<or> map_of a' k = map_of a k"
      and p2: "\<forall>k. (\<forall>b. chk (Text d b) k) \<longrightarrow> map_of a' k = map_of a k"
      and p3: "\<forall>k. k \<in> set keys \<and> (\<forall>b. \<not> chk (Text d b) k) \<longrightarrow> map_of a' k = None"
      by blast
    have "removeDisallowedAttributes chk pre post (key # keys) (Text d a) = Some (Text d a')"
      using True r by simp
    moreover have "\<forall>k. k \<in> set (key # keys) \<and> (\<forall>b. \<not> chk (Text d b) k) \<longrightarrow> map_of a' k = None"
      using p3 True by auto
    ultimately show ?thesis using i p1 p2 by blast
  next
    case False
    then have ne: "key \<noteq> ''anchorId''" using idok by auto
    define a1 where "a1 = AList.delete key a"
    have a1: "map_of a1 ''anchorId'' = Some w"
      using ne Cons.prems by (simp add: a1_def delete_conv')
    from Cons.IH[OF a1] obtain a' where
      r: "removeDisallowedAttributes chk pre post keys (Text d a1) = Some (Text d a')"
      and i: "map_of a' ''anchorId'' = Some w"
      and p1: "\<forall>k. map_of a' k = None \<or> map_of a' k = map_of a1 k"
      and p2: "\<forall>k. (\<forall>b. chk (Text d b) k) \<longrightarrow> map_of a' k = map_of a1 k"
      and p3: "\<forall>k. k \<in> set keys \<and> (\<forall>b. \<not> chk (Text d b) k) \<longrightarrow> map_of a' k = None"
      by blast
    have m1: "map_of a1 k = (if k = key then None else map_of a k)" for k
      by (simp add: a1_def delete_conv')
    have "removeDisallowedAttributes chk pre post (key # keys) (Text d a) = Some (Text d a')"
      using False r nomerge[OF a1] by (simp add: a1_def)
    moreover have "\<forall>k. map_of a' k = None \<or> map_of a' k = map_of a k"
      using p1 m1 by metis
    moreover have "\<forall>k. (\<forall>b. chk (Text d b) k) \<longrightarrow> map_of a' k = map_of a k"
    proof (intro allI impI)
      fix k assume all: "\<forall>b. chk (Text d b) k"
      with False have "k \<noteq> key" by auto
      with p2 all m1 show "map_of a' k = map_of a k" by simp
    qed
    moreover have "\<forall>k. k \<in> set (key # keys) \<and> (\<forall>b. \<not> chk (Text d b) k) \<longrightarrow> map_of a' k = None"
    proof (intro allI impI)
      fix k assume k: "k \<in> set (key # keys) \<and> (\<forall>b. \<not> chk (Text d b) k)"
      show "map_of a' k = None"
      proof (cases "k = key")
        case True
        with p1 m1 show ?thesis by metis
      next
        case False
        with k p3 show ?thesis by simp
      qed
    qed
    ultimately show ?thesis using i by blast
  qed
qed

lemma insertContent_attached:
  assumes place: "checkChild p (Text d a)"
    and p: "p \<le> maxOffset doc"
    and idok: "\<And>b. chk (Text d b) ''anchorId''"
    and sib: "\<forall>n\<in>set (caretSiblings doc p). getAttribute n ''anchorId'' \<noteq> Some w"
    and a: "map_of a ''anchorId'' = Some w"
  shows "\<exists>pre post a'.
           insertContent chk checkChild (Text d a) p doc = Attached (pre @ [Text d a'] @ post) (length pre) \<and>
           maxOffset pre = p \<and> items (pre @ post) = items doc \<and>
           (length (pre @ post) = length doc \<or> length (pre @ post) = Suc (length doc)) \<and>
           map_of a' ''anchorId'' = Some w \<and>
           (\<forall>k. map_of a' k = None \<or> map_of a' k = map_of a k) \<and>
           (\<forall>k. (\<forall>b. chk (Text d b) k) \<longrightarrow> map_of a' k = map_of a k) \<and>
           (\<forall>k. (\<forall>b. \<not> chk (Text d b) k) \<longrightarrow> map_of a' k = None)"
proof -
  obtain pre post where sp: "splitNodeAtPosition doc p = (pre, post)"
    by (cases "splitNodeAtPosition doc p")
  have nomerge: "\<not> mergesAt pre (Text d b) post" if "map_of b ''anchorId'' = Some w" for b
    using mergesAt_anchorId[OF sib sp that] .
  from removeDisallowedAttributes_result[where chk = chk and pre = pre and post = post
      and keys = "map fst a" and d = d and w = w and a = a, OF idok nomerge a]
  obtain a' where
    r: "removeDisallowedAttributes chk pre post (map fst a) (Text d a) = Some (Text d a')"
    and i: "map_of a' ''anchorId'' = Some w"
    and p1: "\<forall>k. map_of a' k = None \<or> map_of a' k = map_of a k"
    and p2: "\<forall>k. (\<forall>b. chk (Text d b) k) \<longrightarrow> map_of a' k = map_of a k"
    and p3: "\<forall>k. k \<in> set (map fst a) \<and> (\<forall>b. \<not> chk (Text d b) k) \<longrightarrow> map_of a' k = None"
    by blast
  have p3': "\<forall>k. (\<forall>b. \<not> chk (Text d b) k) \<longrightarrow> map_of a' k = None"
  proof (intro allI impI)
    fix k assume no: "\<forall>b. \<not> chk (Text d b) k"
    show "map_of a' k = None"
    proof (cases "k \<in> set (map fst a)")
      case True
      with p3 no show ?thesis by blast
    next
      case False
      then have "map_of a k = None" by (simp add: map_of_eq_None_iff)
      with p1 show ?thesis by metis
    qed
  qed
  have "insertContent chk checkChild (Text d a) p doc = Attached (pre @ [Text d a'] @ post) (length pre)"
    using place nomerge[OF a] r by (simp add: insertContent_def sp)
  with splitNodeAtPosition_spec[OF p sp] i p1 p2 p3' show ?thesis by blast
qed

lemma truthy_member: "k \<in> set (truthyManualDecorators flags) \<longleftrightarrow> (k, True) \<in> set flags"
  by (force simp: truthyManualDecorators_def)

lemma execute_insert_eq:
  assumes sel: "sel_ranges sel = [(p, p)]" and p: "p \<le> maxOffset doc"
    and no: "map_of (sel_attrs sel) ''anchorId'' = None" and ne: "aid \<noteq> ''''"
    and place: "\<And>a. cc p (Text aid a)"
    and idok: "\<And>a. chk (Text aid a) ''anchorId''"
    and noflag: "(''anchorId'', True) \<notin> set flags"
    and sib: "\<forall>n\<in>set (caretSiblings doc p). getAttribute n ''anchorId'' \<noteq> Some (StrVal aid)"
  shows "\<exists>pre post A.
           execute chk cc aid flags doc sel = Inr (pre @ [Text aid A] @ post, [(p, p + length aid)]) \<and>
           maxOffset pre = p \<and> items (pre @ post) = items doc \<and>
           (length (pre @ post) = length doc \<or> length (pre @ post) = Suc (length doc)) \<and>
           (\<forall>k. (\<forall>a. chk (Text aid a) k) \<longrightarrow>
                  map_of A k =
                    (if (k, True) \<in> set flags then Some (BoolVal True)
                     else if k = ''anchorId'' then Some (StrVal aid)
                     else map_of (sel_attrs sel) k)) \<and>
           (\<forall>k. (\<forall>a. \<not> chk (Text aid a) k) \<longrightarrow> map_of A k = None) \<and>
           (\<forall>k. (k, True) \<notin> set flags \<and> k \<noteq> ''anchorId'' \<longrightarrow>
                  map_of A k = None \<or> map_of A k = map_of (sel_attrs sel) k)"
proof -
  define A0 where "A0 = fold (\<lambda>item. AList.update item (BoolVal True)) (truthyManualDecorators flags)
                        (AList.update ''anchorId'' (StrVal aid) (sel_attrs sel))"
  have A0: "map_of A0 k =
                  (if (k, True) \<in> set flags then Some (BoolVal True)
                   else if k = ''anchorId'' then Some (StrVal aid)
                   else map_of (sel_attrs sel) k)" for k
    by (simp add: A0_def map_of_fold_update update_conv' truthy_member)
  have A0id: "map_of A0 ''anchorId'' = Some (StrVal aid)"
    using noflag by (simp add: A0)
  from insertContent_attached[where checkChild = cc and chk = chk and d = aid and a = A0
      and w = "StrVal aid", OF place p idok sib A0id]
  obtain pre post A where
    ic: "insertContent chk cc (Text aid A0) p doc = Attached (pre @ [Text aid A] @ post) (length pre)"
    and mo: "maxOffset pre = p" and its: "items (pre @ post) = items doc"
    and len: "length (pre @ post) = length doc \<or> length (pre @ post) = Suc (length doc)"
    and p1: "\<forall>k. map_of A k = None \<or> map_of A k = map_of A0 k"
    and p2: "\<forall>k. (\<forall>b. chk (Text aid b) k) \<longrightarrow> map_of A k = map_of A0 k"
    and p3: "\<forall>k. (\<forall>b. \<not> chk (Text aid b) k) \<longrightarrow> map_of A k = None"
    by blast
  have cr: "createRangeOn (pre @ Text aid A # post) (length pre) = (p, p + length aid)"
    by (simp add: createRangeOn_def startOffset_def endOffset_def mo)
  have ic': "insertContent chk cc (Text aid A0) p doc = Attached (pre @ Text aid A # post) (length pre)"
    using ic by simp
  have ex: "execute chk cc aid flags doc sel = Inr (pre @ [Text aid A] @ post, [(p, p + length aid)])"
    using ne
    by (simp add: execute_def isCollapsed_def getFirstPosition_def sel_hasAttribute_def sel no
          Let_def A0_def[symmetric] ic' cr)
  have q2: "\<forall>k. (\<forall>a. chk (Text aid a) k) \<longrightarrow>
                  map_of A k =
                    (if (k, True) \<in> set flags then Some (BoolVal True)
                     else if k = ''anchorId'' then Some (StrVal aid)
                     else map_of (sel_attrs sel) k)"
    using p2 A0 by simp
  have q1: "\<forall>k. (k, True) \<notin> set flags \<and> k \<noteq> ''anchorId'' \<longrightarrow>
                  map_of A k = None \<or> map_of A k = map_of (sel_attrs sel) k"
  proof (intro allI impI)
    fix k assume "(k, True) \<notin> set flags \<and> k \<noteq> ''anchorId''"
    then have "map_of A0 k = map_of (sel_attrs sel) k" by (simp add: A0)
    with p1 show "map_of A k = None \<or> map_of A k = map_of (sel_attrs sel) k" by metis
  qed
  from ex mo its len q2 p3 q1 show ?thesis by blast
qed

lemma attrsAt_inserted:
  assumes "maxOffset pre = p" and "p \<le> off" and "off < p + length d"
  shows "attrsAt (pre @ [Text d A] @ post) off = A"
proof -
  have len: "length (items pre) = p" using assms(1) by simp
  have lt: "off - p < length d" using assms(2,3) by arith
  have "items (pre @ [Text d A] @ post) ! off = (map (\<lambda>c. (Ch c, A)) d @ items post) ! (off - p)"
    using assms(2) len by (simp add: nth_append)
  also have "\<dots> = map (\<lambda>c. (Ch c, A)) d ! (off - p)"
    using lt by (simp add: nth_append)
  also have "\<dots> = (Ch (d ! (off - p)), A)" using lt by simp
  finally show ?thesis by (simp add: attrsAt_def)
qed

lemma execute_collapsed_effect:
  assumes sel: "sel_ranges sel = [(p, p)]"
    and has: "map_of (sel_attrs sel) ''anchorId'' = Some v"
    and dist: "distinct (map fst flags)"
    and noid: "''anchorId'' \<notin> fst ` set flags"
  shows "case findAnchorRange doc p (Some v) of (s, e) \<Rightarrow>
         case execute chk cc aid flags doc sel of Inl f \<Rightarrow> False | Inr (doc', ranges') \<Rightarrow>
           ranges' = [(s, e)] \<and> maxOffset doc' = maxOffset doc \<and>
           (\<forall>off<maxOffset doc.
              contentAt doc' off = contentAt doc off \<and>
              (if s \<le> off \<and> off < e
               then map_of (attrsAt doc' off) ''anchorId'' = Some (StrVal aid) \<and>
                    (\<forall>(k, b)\<in>set flags.
                       map_of (attrsAt doc' off) k = (if b then Some (BoolVal True) else None)) \<and>
                    (\<forall>k. k \<noteq> ''anchorId'' \<and> k \<notin> fst ` set flags \<longrightarrow>
                       map_of (attrsAt doc' off) k = map_of (attrsAt doc off) k)
               else attrsAt doc' off = attrsAt doc off))"
proof -
  obtain s e where r: "findAnchorRange doc p (Some v) = (s, e)" by (cases "findAnchorRange doc p (Some v)")
  define g where "g = anchorAttributes aid (truthyManualDecorators flags) (falsyManualDecorators flags)"
  define doc' where "doc' = anchorRangeAttributes aid (truthyManualDecorators flags)
                              (falsyManualDecorators flags) (s, e) doc"
  have ex: "execute chk cc aid flags doc sel = Inr (doc', [(s, e)])"
    by (simp add: execute_collapsed_eq[OF sel has] r doc'_def)
  have it: "items doc' = upd_items g s e (items doc)"
    by (simp add: doc'_def g_def items_anchorRangeAttributes)
  have "contentAt doc' off = contentAt doc off \<and>
              (if s \<le> off \<and> off < e
               then map_of (attrsAt doc' off) ''anchorId'' = Some (StrVal aid) \<and>
                    (\<forall>(k, b)\<in>set flags.
                       map_of (attrsAt doc' off) k = (if b then Some (BoolVal True) else None)) \<and>
                    (\<forall>k. k \<noteq> ''anchorId'' \<and> k \<notin> fst ` set flags \<longrightarrow>
                       map_of (attrsAt doc' off) k = map_of (attrsAt doc off) k)
               else attrsAt doc' off = attrsAt doc off)" if off: "off < maxOffset doc" for off
  proof (cases "s \<le> off \<and> off < e")
    case True
    with range_effect(2)[OF it off] have a: "attrsAt doc' off = g (attrsAt doc off)"
      and c: "contentAt doc' off = contentAt doc off" by simp_all
    have "map_of (attrsAt doc' off) = map_of (anchorAttributes aid (truthyManualDecorators flags)
             (falsyManualDecorators flags) (attrsAt doc off))"
      by (simp add: a g_def)
    from anchorAttributes_spec[OF dist noid this] True c show ?thesis by simp
  next
    case False
    with range_effect(2)[OF it off] show ?thesis by auto
  qed
  with range_effect(1)[OF it] show ?thesis by (simp add: r ex)
qed

text \<open>
  When a node next to the caret has the attributes of the new text, the host merges the two
  and the node the command holds is no longer attached: \<open>createRangeOn\<close> throws. Here the
  caret is behind a text \<open>x\<close> that is an anchor with the identifier \<open>x\<close>, and the
  selection has no \<open>anchorId\<close>.
\<close>

lemma execute_merged_text_throws:
  "execute allowAll anyPlace ''x'' [] [Text ''x'' [(''anchorId'', StrVal ''x'')]]
     \<lparr>sel_ranges = [(Suc 0, Suc 0)], sel_attrs = []\<rparr> = Inl NodeWithoutParent"
  by (simp add: execute_def isCollapsed_def getFirstPosition_def sel_hasAttribute_def
        truthyManualDecorators_def falsyManualDecorators_def insertContent_def mergesAt_def
        haveSameAttributes_def allowAll_def anyPlace_def Let_def)

lemmas resolver_simps =
  findAnchorRange_def findBound_def startNode_def textNode_def nodeBefore_def nodeAfter_def
  startOffset_def endOffset_def createPositionAt_def createRange_def walk.simps loose_eq_def
  getAttribute_def previousSibling_def nextSibling_def

section \<open>Claims about findAnchorRange\<close>

text \<open>
  C1. The children are \<open>pre @ run @ post\<close>, where every node of \<open>run\<close> carries
  \<open>anchorId\<close> with the value \<open>v\<close> and the run is maximal: the node before it and the
  node after it, if any, do not carry that value. For every position \<open>p\<close> strictly inside
  the run, in whichever of its nodes or between whichever two of them,
  \<open>findAnchorRange\<close> called with \<open>p\<close> and \<open>v\<close> returns the range from just before
  the first node of the run to just after its last node.
\<close>

theorem findAnchorRange_covers_run:
  assumes "\<forall>n\<in>set run. getAttribute n ''anchorId'' = Some v"
    and "pre = [] \<or> getAttribute (last pre) ''anchorId'' \<noteq> Some v"
    and "post = [] \<or> getAttribute (hd post) ''anchorId'' \<noteq> Some v"
    and "maxOffset pre < p" and "p < maxOffset pre + maxOffset run"
  shows "findAnchorRange (pre @ run @ post) p (Some v)
           = (startOffset (pre @ run @ post) (length pre),
              endOffset (pre @ run @ post) (length pre + length run - 1))
         \<and> startOffset (pre @ run @ post) (length pre) = maxOffset pre
         \<and> endOffset (pre @ run @ post) (length pre + length run - 1)
             = maxOffset pre + maxOffset run"
proof -
  from assms(4,5) obtain r rs where run: "run = r # rs" by (cases run) auto
  have s: "startOffset (pre @ run @ post) (length pre) = maxOffset pre"
    by (simp add: startOffset_def)
  have b: "length pre + length run - 1 < length (pre @ run @ post)"
    and Sb: "Suc (length pre + length run - 1) = length pre + length run"
    by (simp_all add: run)
  have "endOffset (pre @ run @ post) (length pre + length run - 1)
          = startOffset (pre @ run @ post) (Suc (length pre + length run - 1))"
    using startOffset_Suc[OF b] by simp
  also have "\<dots> = maxOffset pre + maxOffset run"
    unfolding Sb by (simp add: startOffset_def)
  finally have e: "endOffset (pre @ run @ post) (length pre + length run - 1)
             = maxOffset pre + maxOffset run" .
  show ?thesis
    using findAnchorRange_run[OF assms] s e by simp
qed

theorem findAnchorRange_covers_run_witness:
  "findAnchorRange
     [Text ''ab'' [],
      Text ''cd'' [(''anchorId'', StrVal ''x'')],
      Element ''img'' [(''anchorId'', StrVal ''x'')],
      Text ''ef'' [(''anchorId'', StrVal ''x'')],
      Text ''g'' [(''anchorId'', StrVal ''y'')]] 5 (Some (StrVal ''x'')) = (2, 7)"
  using findAnchorRange_covers_run
    [of "[Text ''cd'' [(''anchorId'', StrVal ''x'')],
          Element ''img'' [(''anchorId'', StrVal ''x'')],
          Text ''ef'' [(''anchorId'', StrVal ''x'')]]"
        "StrVal ''x''" "[Text ''ab'' []]" "[Text ''g'' [(''anchorId'', StrVal ''y'')]]" 5]
  by (simp add: getAttribute_def)

text \<open>
  C8. When the node the walk starts from on one side of the position \<open>p\<close> is missing
  or does not carry the value \<open>v\<close>, the bound on that side is \<open>p\<close> itself. When
  this is so on both sides, and in particular when no node at all carries \<open>v\<close> (a
  stale attribute of the selection), the range returned is the collapsed range at \<open>p\<close>.
  The functions are total: no error is raised.
\<close>

theorem findBound_without_match:
  "((\<forall>i. startNode doc p lookBack = Some i \<longrightarrow> getAttribute (doc ! i) ''anchorId'' \<noteq> v)
      \<longrightarrow> findBound doc p v lookBack = p)
   \<and> ((\<forall>lookBack i. startNode doc p lookBack = Some i \<longrightarrow> getAttribute (doc ! i) ''anchorId'' \<noteq> v)
      \<longrightarrow> findAnchorRange doc p v = (p, p))
   \<and> ((\<forall>n\<in>set doc. getAttribute n ''anchorId'' \<noteq> v) \<longrightarrow> findAnchorRange doc p v = (p, p))"
proof (intro conjI impI)
  assume "\<forall>i. startNode doc p lookBack = Some i \<longrightarrow> getAttribute (doc ! i) ''anchorId'' \<noteq> v"
  then show "findBound doc p v lookBack = p" by (rule findBound_nomatch)
next
  assume a: "\<forall>lookBack i. startNode doc p lookBack = Some i \<longrightarrow> getAttribute (doc ! i) ''anchorId'' \<noteq> v"
  then have "findBound doc p v True = p" "findBound doc p v False = p"
    by (simp_all add: findBound_nomatch)
  then show "findAnchorRange doc p v = (p, p)"
    by (simp add: findAnchorRange_def createRange_def)
next
  assume a: "\<forall>n\<in>set doc. getAttribute n ''anchorId'' \<noteq> v"
  have "getAttribute (doc ! i) ''anchorId'' \<noteq> v" if "startNode doc p lb = Some i" for lb i
    using startNode_valid[OF that] a by simp
  then have "findBound doc p v True = p" "findBound doc p v False = p"
    by (simp_all add: findBound_nomatch)
  then show "findAnchorRange doc p v = (p, p)"
    by (simp add: findAnchorRange_def createRange_def)
qed

theorem findBound_without_match_witness:
  "findBound [Text ''ab'' [(''anchorId'', StrVal ''x'')], Text ''cd'' []] 2 (Some (StrVal ''x'')) False = 2
   \<and> findBound [Text ''ab'' [(''anchorId'', StrVal ''x'')], Text ''cd'' []] 2 (Some (StrVal ''x'')) True = 0
   \<and> findAnchorRange [Text ''ab'' [(''anchorId'', StrVal ''x'')], Text ''cd'' []] 3 (Some (StrVal ''x'')) = (3, 3)
   \<and> findAnchorRange [Text ''ab'' [(''anchorId'', StrVal ''x'')], Text ''cd'' []] 1 (Some (StrVal ''y'')) = (1, 1)"
proof -
  let ?doc = "[Text ''ab'' [(''anchorId'', StrVal ''x'')], Text ''cd'' []]"
  have sn: "startNode ?doc 2 False = Some 1" "startNode ?doc 3 True = Some 1" "startNode ?doc 3 False = Some 1"
    by (simp_all add: startNode_def textNode_def nodeAfter_def nodeBefore_def startOffset_def)
  have 1: "findBound ?doc 2 (Some (StrVal ''x'')) False = 2"
    using findBound_without_match[of ?doc 2 False "Some (StrVal ''x'')"] sn
    by (simp add: getAttribute_def)
  have 2: "findBound ?doc 2 (Some (StrVal ''x'')) True = 0"
    by (simp add: findBound_def startNode_def textNode_def nodeAfter_def nodeBefore_def
        startOffset_def walk.simps loose_eq_def getAttribute_def previousSibling_def createPositionAt_def)
  have all3: "startNode ?doc 3 lb = Some 1" for lb using sn by (cases lb) simp_all
  have 3: "findAnchorRange ?doc 3 (Some (StrVal ''x'')) = (3, 3)"
    using findBound_without_match[of ?doc 3 False "Some (StrVal ''x'')"]
    by (simp add: getAttribute_def all3)
  have 4: "findAnchorRange ?doc 1 (Some (StrVal ''y'')) = (1, 1)"
    using findBound_without_match[of ?doc 1 False "Some (StrVal ''y'')"]
    by (simp add: getAttribute_def)
  show ?thesis using 1 2 3 4 by simp
qed

text \<open>
  C9. The loop treats the node under examination as a match exactly when its
  \<open>anchorId\<close> attribute is present with the target value \<open>v\<close> (a value, as the
  parameter is documented, not \<open>undefined\<close>). A text node and an
  element with the same attributes are treated alike, a node without the attribute never
  matches, and the walk gives the same result on any two sequences of nodes that agree on the
  \<open>anchorId\<close> attribute of every node, whatever the nodes are.
\<close>

theorem walk_matches_by_value:
  "walk doc (Some v) lookBack (Some i) lastNode =
      (if map_of (attrs (doc ! i)) ''anchorId'' = Some v
       then walk doc (Some v) lookBack
              (if lookBack then previousSibling doc i else nextSibling doc i) (Some i)
       else lastNode)
   \<and> loose_eq (getAttribute (Text d a) ''anchorId'') (Some v)
       = loose_eq (getAttribute (Element nm a) ''anchorId'') (Some v)
   \<and> \<not> (map_of (attrs n) ''anchorId'' = None \<and> loose_eq (getAttribute n ''anchorId'') (Some v))
   \<and> (map (\<lambda>n. getAttribute n ''anchorId'') doc = map (\<lambda>n. getAttribute n ''anchorId'') doc'
        \<and> i < length doc
       \<longrightarrow> walk doc (Some v) lookBack (Some i) lastNode = walk doc' (Some v) lookBack (Some i) lastNode)"
proof (intro conjI impI)
  show "walk doc (Some v) lookBack (Some i) lastNode =
      (if map_of (attrs (doc ! i)) ''anchorId'' = Some v
       then walk doc (Some v) lookBack
              (if lookBack then previousSibling doc i else nextSibling doc i) (Some i)
       else lastNode)"
    by (subst walk.simps(2)) (simp add: loose_eq_def getAttribute_def)
next
  show "loose_eq (getAttribute (Text d a) ''anchorId'') (Some v)
       = loose_eq (getAttribute (Element nm a) ''anchorId'') (Some v)"
    by (simp add: getAttribute_def)
next
  show "\<not> (map_of (attrs n) ''anchorId'' = None \<and> loose_eq (getAttribute n ''anchorId'') (Some v))"
    by (auto simp: getAttribute_def loose_eq_def)
next
  assume "map (\<lambda>n. getAttribute n ''anchorId'') doc = map (\<lambda>n. getAttribute n ''anchorId'') doc' \<and> i < length doc"
  then show "walk doc (Some v) lookBack (Some i) lastNode = walk doc' (Some v) lookBack (Some i) lastNode"
    by (intro walk_attr_only) simp_all
qed

theorem walk_matches_by_value_witness:
  "walk [Text ''ab'' [(''anchorId'', StrVal ''x'')], Element ''img'' [(''anchorId'', StrVal ''x'')],
         Text ''c'' [(''bold'', BoolVal True)]] (Some (StrVal ''x'')) False (Some 0) None = Some 1
   \<and> walk [Element ''br'' [(''anchorId'', StrVal ''x'')], Text ''zz'' [(''anchorId'', StrVal ''x'')],
         Element ''hr'' []] (Some (StrVal ''x'')) False (Some 0) None = Some 1"
proof -
  let ?d1 = "[Text ''ab'' [(''anchorId'', StrVal ''x'')], Element ''img'' [(''anchorId'', StrVal ''x'')],
         Text ''c'' [(''bold'', BoolVal True)]]"
  let ?d2 = "[Element ''br'' [(''anchorId'', StrVal ''x'')], Text ''zz'' [(''anchorId'', StrVal ''x'')],
         Element ''hr'' []]"
  have 1: "walk ?d1 (Some (StrVal ''x'')) False (Some 0) None = Some 1"
    by (simp add: walk.simps loose_eq_def getAttribute_def nextSibling_def)
  have "walk ?d1 (Some (StrVal ''x'')) False (Some 0) None = walk ?d2 (Some (StrVal ''x'')) False (Some 0) None"
    by (rule walk_matches_by_value[where doc = ?d1 and doc' = ?d2 and i = 0 and v = "StrVal ''x''",
          THEN conjunct2, THEN conjunct2, THEN conjunct2, THEN mp])
       (simp add: getAttribute_def)
  with 1 show ?thesis by simp
qed

section \<open>Claims about the commands\<close>

text \<open>
  C2. The selection is collapsed at \<open>p\<close> and carries \<open>anchorId\<close> with the value
  \<open>v\<close>; the decorator flags have distinct names, none of them \<open>anchorId\<close>. Then
  \<open>execute\<close> resolves the span \<open>(s, e)\<close> with \<open>findAnchorRange\<close> at
  \<open>p\<close> and \<open>v\<close>, and afterwards the selection is exactly that span; at every
  offset inside the span \<open>anchorId\<close> is the new identifier, every decorator flagged
  true is \<open>true\<close>, every decorator flagged false is absent and every other attribute
  is as before; outside the span the attributes are unchanged; the content is unchanged
  everywhere.
\<close>

theorem execute_renames_span:
  assumes sel: "sel_ranges sel = [(p, p)]"
    and has: "map_of (sel_attrs sel) ''anchorId'' = Some v"
    and dist: "distinct (map fst flags)"
    and noid: "''anchorId'' \<notin> fst ` set flags"
  shows "case findAnchorRange doc p (Some v) of (s, e) \<Rightarrow>
         case execute chk cc aid flags doc sel of Inl f \<Rightarrow> False | Inr (doc', ranges') \<Rightarrow>
           ranges' = [(s, e)] \<and> maxOffset doc' = maxOffset doc \<and>
           (\<forall>off<maxOffset doc.
              contentAt doc' off = contentAt doc off \<and>
              (if s \<le> off \<and> off < e
               then map_of (attrsAt doc' off) ''anchorId'' = Some (StrVal aid) \<and>
                    (\<forall>(k, b)\<in>set flags.
                       map_of (attrsAt doc' off) k = (if b then Some (BoolVal True) else None)) \<and>
                    (\<forall>k. k \<noteq> ''anchorId'' \<and> k \<notin> fst ` set flags \<longrightarrow>
                       map_of (attrsAt doc' off) k = map_of (attrsAt doc off) k)
               else attrsAt doc' off = attrsAt doc off))"
  using execute_collapsed_effect[OF assms] .

theorem execute_renames_span_witness:
  "case execute allowAll anyPlace ''y'' [(''anchorIsExternal'', True), (''anchorFoo'', False)]
          [Text ''A'' [(''anchorId'', StrVal ''x'')],
           Text ''BB'' [(''anchorId'', StrVal ''x''), (''bold'', BoolVal True)],
           Text ''C'' [(''anchorId'', StrVal ''x''), (''anchorFoo'', BoolVal True)],
           Text ''d'' []]
          \<lparr>sel_ranges = [(2, 2)], sel_attrs = [(''anchorId'', StrVal ''x''), (''bold'', BoolVal True)]\<rparr>
   of Inl f \<Rightarrow> False | Inr (doc', ranges') \<Rightarrow>
     ranges' = [(0, 4)] \<and>
     map_of (attrsAt doc' 0) ''anchorId'' = Some (StrVal ''y'') \<and>
     map_of (attrsAt doc' 1) ''anchorId'' = Some (StrVal ''y'') \<and>
     map_of (attrsAt doc' 3) ''anchorId'' = Some (StrVal ''y'') \<and>
     map_of (attrsAt doc' 3) ''anchorIsExternal'' = Some (BoolVal True) \<and>
     map_of (attrsAt doc' 3) ''anchorFoo'' = None \<and>
     map_of (attrsAt doc' 2) ''bold'' = Some (BoolVal True) \<and>
     attrsAt doc' 4 = []"
proof -
  let ?doc = "[Text ''A'' [(''anchorId'', StrVal ''x'')],
           Text ''BB'' [(''anchorId'', StrVal ''x''), (''bold'', BoolVal True)],
           Text ''C'' [(''anchorId'', StrVal ''x''), (''anchorFoo'', BoolVal True)],
           Text ''d'' []]"
  let ?sel = "\<lparr>sel_ranges = [(2, 2)], sel_attrs = [(''anchorId'', StrVal ''x''), (''bold'', BoolVal True)]\<rparr>"
  let ?flags = "[(''anchorIsExternal'', True), (''anchorFoo'', False)]"
  have far: "findAnchorRange ?doc 2 (Some (StrVal ''x'')) = (0, 4)"
    by (simp add: resolver_simps)
  have at: "attrsAt ?doc 2 = [(''anchorId'', StrVal ''x''), (''bold'', BoolVal True)]" "attrsAt ?doc 4 = []"
    by (simp_all add: attrsAt_def)
  have "0 < maxOffset ?doc" "1 < maxOffset ?doc" "2 < maxOffset ?doc" "3 < maxOffset ?doc" "4 < maxOffset ?doc"
    by simp_all
  with execute_renames_span[where sel = ?sel and p = 2 and v = "StrVal ''x''" and flags = ?flags
      and doc = ?doc and chk = allowAll and cc = anyPlace and aid = "''y''"] at
  show ?thesis
    unfolding far by (auto simp: All_less_Suc eval_nat_numeral split: sum.splits prod.splits)
qed

text \<open>
  C3. The selection is not collapsed; the decorator flags have distinct names, none of them
  \<open>anchorId\<close>. Then \<open>execute\<close> leaves the ranges of the selection as they are and
  the content unchanged. At an offset that lies in a selected range and in a node on which
  the schema allows \<open>anchorId\<close>, the attribute \<open>anchorId\<close> is the new identifier,
  every decorator flagged true is \<open>true\<close>, every decorator flagged false is absent, and
  every other attribute is as before. At every other offset, so in every node that disallows
  the attribute and everywhere outside the selected ranges, the attributes are unchanged.
\<close>

theorem execute_on_valid_ranges:
  assumes nc: "\<not> isCollapsed sel"
    and dist: "distinct (map fst flags)"
    and noid: "''anchorId'' \<notin> fst ` set flags"
  shows "case execute chk cc aid flags doc sel of Inl f \<Rightarrow> False | Inr (doc', ranges') \<Rightarrow>
           ranges' = sel_ranges sel \<and> maxOffset doc' = maxOffset doc \<and>
           (\<forall>off<maxOffset doc.
              contentAt doc' off = contentAt doc off \<and>
              (if inRanges (sel_ranges sel) off \<and> chk (nodeAt doc off) ''anchorId''
               then map_of (attrsAt doc' off) ''anchorId'' = Some (StrVal aid) \<and>
                    (\<forall>(k, b)\<in>set flags.
                       map_of (attrsAt doc' off) k = (if b then Some (BoolVal True) else None)) \<and>
                    (\<forall>k. k \<noteq> ''anchorId'' \<and> k \<notin> fst ` set flags \<longrightarrow>
                       map_of (attrsAt doc' off) k = map_of (attrsAt doc off) k)
               else attrsAt doc' off = attrsAt doc off))"
proof -
  define g where "g = anchorAttributes aid (truthyManualDecorators flags) (falsyManualDecorators flags)"
  define rs where "rs = getValidRanges chk (sel_ranges sel) ''anchorId'' doc"
  define doc' where "doc' = fold (anchorRangeAttributes aid (truthyManualDecorators flags)
                                     (falsyManualDecorators flags)) rs doc"
  have ex: "execute chk cc aid flags doc sel = Inr (doc', sel_ranges sel)"
    by (simp add: doc'_def rs_def execute_non_collapsed_eq[OF nc])
  have it: "items doc' = fold (\<lambda>r. upd_items g (fst r) (snd r)) rs (items doc)"
    unfolding doc'_def g_def by (rule items_fold_anchorRanges)
  have idem: "map_of (g (g a)) = map_of (g a)" for a
    unfolding g_def by (rule anchorAttributes_idem)
  have "contentAt doc' off = contentAt doc off \<and>
              (if inRanges (sel_ranges sel) off \<and> chk (nodeAt doc off) ''anchorId''
               then map_of (attrsAt doc' off) ''anchorId'' = Some (StrVal aid) \<and>
                    (\<forall>(k, b)\<in>set flags.
                       map_of (attrsAt doc' off) k = (if b then Some (BoolVal True) else None)) \<and>
                    (\<forall>k. k \<noteq> ''anchorId'' \<and> k \<notin> fst ` set flags \<longrightarrow>
                       map_of (attrsAt doc' off) k = map_of (attrsAt doc off) k)
               else attrsAt doc' off = attrsAt doc off)" if off: "off < maxOffset doc" for off
  proof -
    have valid: "inRanges rs off \<longleftrightarrow> inRanges (sel_ranges sel) off \<and> chk (nodeAt doc off) ''anchorId''"
      using off by (simp add: rs_def inRanges_getValidRanges nodeAt_def)
    show ?thesis
    proof (cases "inRanges rs off")
      case True
      with ranges_effect(2)[where g = g, OF it idem off]
      have a: "map_of (attrsAt doc' off) = map_of (g (attrsAt doc off))"
        and c: "contentAt doc' off = contentAt doc off" by simp_all
      from anchorAttributes_spec[OF dist noid a[unfolded g_def]] True c valid show ?thesis by simp
    next
      case False
      with ranges_effect(2)[where g = g, OF it idem off] valid show ?thesis by auto
    qed
  qed
  with ranges_effect(1)[where g = g, OF it idem] show ?thesis by (simp add: ex)
qed

theorem execute_on_valid_ranges_witness:
  "case execute anchorSchema anyPlace ''z'' [(''bold'', True)]
          [Text ''A'' [(''anchorId'', StrVal ''x'')],
           Text ''BB'' [(''anchorId'', StrVal ''x'')],
           Element ''img'' [(''anchorId'', StrVal ''x'')]]
          \<lparr>sel_ranges = [(2, 4)], sel_attrs = [(''anchorId'', StrVal ''x'')]\<rparr>
   of Inl f \<Rightarrow> False | Inr (doc', ranges') \<Rightarrow>
     ranges' = [(2, 4)] \<and>
     map_of (attrsAt doc' 2) ''anchorId'' = Some (StrVal ''z'') \<and>
     map_of (attrsAt doc' 2) ''bold'' = Some (BoolVal True) \<and>
     attrsAt doc' 3 = [(''anchorId'', StrVal ''x'')] \<and>
     attrsAt doc' 1 = [(''anchorId'', StrVal ''x'')] \<and>
     attrsAt doc' 0 = [(''anchorId'', StrVal ''x'')]"
proof -
  let ?doc = "[Text ''A'' [(''anchorId'', StrVal ''x'')],
           Text ''BB'' [(''anchorId'', StrVal ''x'')],
           Element ''img'' [(''anchorId'', StrVal ''x'')]]"
  let ?sel = "\<lparr>sel_ranges = [(2, 4)], sel_attrs = [(''anchorId'', StrVal ''x'')]\<rparr>"
  have at: "attrsAt ?doc 0 = [(''anchorId'', StrVal ''x'')]" "attrsAt ?doc 1 = [(''anchorId'', StrVal ''x'')]"
      "attrsAt ?doc 3 = [(''anchorId'', StrVal ''x'')]"
    by (simp_all add: attrsAt_def)
  have nd: "is_Text (nodeAt ?doc 2)" "\<not> is_Text (nodeAt ?doc 3)"
    by (simp_all add: nodeAt_def)
  have at': "attrsAt ?doc (Suc 0) = [(''anchorId'', StrVal ''x'')]"
      "attrsAt ?doc (Suc (Suc (Suc 0))) = [(''anchorId'', StrVal ''x'')]"
    and nd': "is_Text (nodeAt ?doc (Suc (Suc 0)))" "\<not> is_Text (nodeAt ?doc (Suc (Suc (Suc 0))))"
    using at nd by (simp_all add: eval_nat_numeral)
  from execute_on_valid_ranges[where sel = ?sel and flags = "[(''bold'', True)]"
      and doc = ?doc and chk = anchorSchema and cc = anyPlace and aid = "''z''"] at at' nd'
  show ?thesis
    by (auto simp: isCollapsed_def anchorSchema_def All_less_Suc eval_nat_numeral
          split: sum.splits prod.splits)
qed

text \<open>
  C4. The ranges \<open>UnanchorCommand.execute\<close> works on are the one span resolved by
  \<open>findAnchorRange\<close> at the caret with the selection's value of \<open>anchorId\<close> when
  the selection is collapsed, and the selected ranges themselves, with no schema check, when
  it is not. At every offset inside these ranges \<open>anchorId\<close> is absent afterwards, and
  so is every decorator of the registered anchor command, whatever its value was; all other
  attributes, all attributes outside the ranges, and the content are unchanged.
\<close>

theorem unanchor_execute_removes:
  "(sel_ranges sel = [(p, p)] \<longrightarrow>
      rangesToUnanchor doc sel = [findAnchorRange doc p (map_of (sel_attrs sel) ''anchorId'')]) \<and>
   (\<not> isCollapsed sel \<longrightarrow> rangesToUnanchor doc sel = sel_ranges sel) \<and>
   maxOffset (unanchor_execute anchorCommand doc sel) = maxOffset doc \<and>
   (\<forall>off<maxOffset doc.
      contentAt (unanchor_execute anchorCommand doc sel) off = contentAt doc off \<and>
      (if inRanges (rangesToUnanchor doc sel) off
       then map_of (attrsAt (unanchor_execute anchorCommand doc sel) off) ''anchorId'' = None \<and>
            (\<forall>ds. anchorCommand = Some ds \<longrightarrow>
               (\<forall>d\<in>set ds. map_of (attrsAt (unanchor_execute anchorCommand doc sel) off) d = None)) \<and>
            (\<forall>k. k \<noteq> ''anchorId'' \<and> (\<forall>ds. anchorCommand = Some ds \<longrightarrow> k \<notin> set ds) \<longrightarrow>
               map_of (attrsAt (unanchor_execute anchorCommand doc sel) off) k
                 = map_of (attrsAt doc off) k)
       else attrsAt (unanchor_execute anchorCommand doc sel) off = attrsAt doc off))"
proof (intro conjI impI allI)
  assume "sel_ranges sel = [(p, p)]"
  then show "rangesToUnanchor doc sel = [findAnchorRange doc p (map_of (sel_attrs sel) ''anchorId'')]"
    by (simp add: rangesToUnanchor_def isCollapsed_def getFirstPosition_def sel_getAttribute_def)
next
  assume "\<not> isCollapsed sel"
  then show "rangesToUnanchor doc sel = sel_ranges sel" by (simp add: rangesToUnanchor_def)
next
  define g where "g = unanchorAttributes anchorCommand"
  define doc' where "doc' = unanchor_execute anchorCommand doc sel"
  have it: "items doc' = fold (\<lambda>r. upd_items g (fst r) (snd r)) (rangesToUnanchor doc sel) (items doc)"
    unfolding doc'_def g_def by (rule items_unanchor_execute)
  have idem: "map_of (g (g a)) = map_of (g a)" for a
    unfolding g_def by (rule unanchorAttributes_idem)
  show "maxOffset (unanchor_execute anchorCommand doc sel) = maxOffset doc"
    using ranges_effect(1)[where g = g, OF it idem] by (simp add: doc'_def)
  fix off assume off: "off < maxOffset doc"
  show "contentAt (unanchor_execute anchorCommand doc sel) off = contentAt doc off"
    using ranges_effect(2)[where g = g, OF it idem off] by (simp add: doc'_def)
  show "if inRanges (rangesToUnanchor doc sel) off
       then map_of (attrsAt (unanchor_execute anchorCommand doc sel) off) ''anchorId'' = None \<and>
            (\<forall>ds. anchorCommand = Some ds \<longrightarrow>
               (\<forall>d\<in>set ds. map_of (attrsAt (unanchor_execute anchorCommand doc sel) off) d = None)) \<and>
            (\<forall>k. k \<noteq> ''anchorId'' \<and> (\<forall>ds. anchorCommand = Some ds \<longrightarrow> k \<notin> set ds) \<longrightarrow>
               map_of (attrsAt (unanchor_execute anchorCommand doc sel) off) k
                 = map_of (attrsAt doc off) k)
       else attrsAt (unanchor_execute anchorCommand doc sel) off = attrsAt doc off"
  proof (cases "inRanges (rangesToUnanchor doc sel) off")
    case True
    with ranges_effect(2)[where g = g, OF it idem off]
    have a: "map_of (attrsAt doc' off) = map_of (unanchorAttributes anchorCommand (attrsAt doc off))"
      by (simp add: g_def)
    have 1: "map_of (attrsAt doc' off) ''anchorId'' = None"
      by (simp add: a map_of_unanchorAttributes)
    have 2: "\<forall>ds. anchorCommand = Some ds \<longrightarrow> (\<forall>d\<in>set ds. map_of (attrsAt doc' off) d = None)"
      by (simp add: a map_of_unanchorAttributes)
    have 3: "\<forall>k. k \<noteq> ''anchorId'' \<and> (\<forall>ds. anchorCommand = Some ds \<longrightarrow> k \<notin> set ds) \<longrightarrow>
               map_of (attrsAt doc' off) k = map_of (attrsAt doc off) k"
      by (simp add: a map_of_unanchorAttributes split: option.splits)
    show ?thesis
      unfolding doc'_def[symmetric] using True 1 2 3 by simp
  next
    case False
    with ranges_effect(2)[where g = g, OF it idem off] show ?thesis by (simp add: doc'_def)
  qed
qed

theorem unanchor_execute_removes_witness:
  "rangesToUnanchor
     [Text ''AAA'' [(''anchorId'', StrVal ''x''), (''anchorIsExternal'', BoolVal True), (''bold'', BoolVal True)],
      Text ''B'' [(''anchorId'', StrVal ''x''), (''anchorIsExternal'', BoolVal True)],
      Text ''c'' []]
     \<lparr>sel_ranges = [(2, 2)], sel_attrs = [(''anchorId'', StrVal ''x'')]\<rparr> = [(0, 4)] \<and>
   map_of (attrsAt (unanchor_execute (Some [''anchorIsExternal''])
     [Text ''AAA'' [(''anchorId'', StrVal ''x''), (''anchorIsExternal'', BoolVal True), (''bold'', BoolVal True)],
      Text ''B'' [(''anchorId'', StrVal ''x''), (''anchorIsExternal'', BoolVal True)],
      Text ''c'' []]
     \<lparr>sel_ranges = [(2, 2)], sel_attrs = [(''anchorId'', StrVal ''x'')]\<rparr>) 3) ''anchorId'' = None \<and>
   map_of (attrsAt (unanchor_execute (Some [''anchorIsExternal''])
     [Text ''AAA'' [(''anchorId'', StrVal ''x''), (''anchorIsExternal'', BoolVal True), (''bold'', BoolVal True)],
      Text ''B'' [(''anchorId'', StrVal ''x''), (''anchorIsExternal'', BoolVal True)],
      Text ''c'' []]
     \<lparr>sel_ranges = [(2, 2)], sel_attrs = [(''anchorId'', StrVal ''x'')]\<rparr>) 3) ''anchorIsExternal'' = None \<and>
   map_of (attrsAt (unanchor_execute (Some [''anchorIsExternal''])
     [Text ''AAA'' [(''anchorId'', StrVal ''x''), (''anchorIsExternal'', BoolVal True), (''bold'', BoolVal True)],
      Text ''B'' [(''anchorId'', StrVal ''x''), (''anchorIsExternal'', BoolVal True)],
      Text ''c'' []]
     \<lparr>sel_ranges = [(2, 2)], sel_attrs = [(''anchorId'', StrVal ''x'')]\<rparr>) 0) ''bold'' = Some (BoolVal True)"
proof -
  let ?doc = "[Text ''AAA'' [(''anchorId'', StrVal ''x''), (''anchorIsExternal'', BoolVal True), (''bold'', BoolVal True)],
      Text ''B'' [(''anchorId'', StrVal ''x''), (''anchorIsExternal'', BoolVal True)],
      Text ''c'' []]"
  let ?sel = "\<lparr>sel_ranges = [(2, 2)], sel_attrs = [(''anchorId'', StrVal ''x'')]\<rparr>"
  have far: "findAnchorRange ?doc 2 (Some (StrVal ''x'')) = (0, 4)"
    by (simp add: resolver_simps)
  have at: "map_of (attrsAt ?doc 0) ''bold'' = Some (BoolVal True)"
    by (simp add: attrsAt_def)
  note th = unanchor_execute_removes[where sel = ?sel and p = 2 and doc = ?doc
      and anchorCommand = "Some [''anchorIsExternal'']"]
  from th have r: "rangesToUnanchor ?doc ?sel = [(0, 4)]" by (simp add: far)
  from th at show ?thesis
    unfolding r by (auto simp: All_less_Suc eval_nat_numeral)
qed

text \<open>
  C5, as amended. A decorator \<open>k\<close> is passed as \<open>false\<close>. On the two branches that
  write to ranges (the resolved span when the selection is collapsed inside an anchor, the
  valid ranges when it is not collapsed) the attribute \<open>k\<close> is absent afterwards at every
  offset of those ranges: it is removed, not set to \<open>false\<close>. The branch that inserts a
  text node makes no use of the decorators passed as \<open>false\<close>: on the inserted text
  \<open>k\<close> is either absent or has the value it has on the selection, and it has that value
  whenever the schema allows \<open>k\<close> on the node. So the command itself never writes
  \<open>false\<close>, but the inserted text carries \<open>k\<close>, with the value \<open>false\<close> too, when
  the selection does. The conditions of the third part are those under which the host leaves
  the inserted node in place (see C7).
\<close>

theorem execute_false_flag_removes:
  assumes k: "(k, False) \<in> set flags"
  shows "(sel_ranges sel = [(p, p)] \<and> map_of (sel_attrs sel) ''anchorId'' = Some v \<longrightarrow>
            (case findAnchorRange doc p (Some v) of (s, e) \<Rightarrow>
             case execute chk cc aid flags doc sel of Inl f \<Rightarrow> False | Inr (doc', ranges') \<Rightarrow>
               \<forall>off<maxOffset doc. s \<le> off \<and> off < e \<longrightarrow>
                 map_of (attrsAt doc' off) k = None)) \<and>
         (\<not> isCollapsed sel \<longrightarrow>
            (case execute chk cc aid flags doc sel of Inl f \<Rightarrow> False | Inr (doc', ranges') \<Rightarrow>
               \<forall>off<maxOffset doc.
                 inRanges (getValidRanges chk (sel_ranges sel) ''anchorId'' doc) off \<longrightarrow>
                   map_of (attrsAt doc' off) k = None)) \<and>
         (sel_ranges sel = [(p, p)] \<and> p \<le> maxOffset doc \<and>
          map_of (sel_attrs sel) ''anchorId'' = None \<and> aid \<noteq> '''' \<and>
          (\<forall>a. cc p (Text aid a)) \<and> (\<forall>a. chk (Text aid a) ''anchorId'') \<and>
          distinct (map fst flags) \<and> k \<noteq> ''anchorId'' \<and> (''anchorId'', True) \<notin> set flags \<and>
          (\<forall>n\<in>set (caretSiblings doc p). getAttribute n ''anchorId'' \<noteq> Some (StrVal aid)) \<longrightarrow>
            (case execute chk cc aid flags doc sel of Inl f \<Rightarrow> False | Inr (doc', ranges') \<Rightarrow>
               ranges' = [(p, p + length aid)] \<and>
               (\<forall>off. p \<le> off \<and> off < p + length aid \<longrightarrow>
                  (map_of (attrsAt doc' off) k = None \<or>
                   map_of (attrsAt doc' off) k = map_of (sel_attrs sel) k) \<and>
                  ((\<forall>a. chk (Text aid a) k) \<longrightarrow>
                   map_of (attrsAt doc' off) k = map_of (sel_attrs sel) k))))"
proof (intro conjI impI)
  define g where "g = anchorAttributes aid (truthyManualDecorators flags) (falsyManualDecorators flags)"
  have gk: "map_of (g a) k = None" for a
    using falsy_member[OF k] by (simp add: g_def map_of_anchorAttributes)
  {
    assume c: "sel_ranges sel = [(p, p)] \<and> map_of (sel_attrs sel) ''anchorId'' = Some v"
    obtain s e where r: "findAnchorRange doc p (Some v) = (s, e)"
      by (cases "findAnchorRange doc p (Some v)")
    define doc' where "doc' = anchorRangeAttributes aid (truthyManualDecorators flags)
                                (falsyManualDecorators flags) (s, e) doc"
    have ex: "execute chk cc aid flags doc sel = Inr (doc', [(s, e)])"
      using c by (simp add: execute_collapsed_eq r doc'_def)
    have it: "items doc' = upd_items g s e (items doc)"
      by (simp add: doc'_def g_def items_anchorRangeAttributes)
    have "map_of (attrsAt doc' off) k = None"
      if "off < maxOffset doc" "s \<le> off \<and> off < e" for off
      using range_effect(2)[OF it that(1)] that(2) gk by simp
    then show "case findAnchorRange doc p (Some v) of (s, e) \<Rightarrow>
             case execute chk cc aid flags doc sel of Inl f \<Rightarrow> False | Inr (doc', ranges') \<Rightarrow>
               \<forall>off<maxOffset doc. s \<le> off \<and> off < e \<longrightarrow>
                 map_of (attrsAt doc' off) k = None"
      by (simp add: r ex)
  }
  {
    assume nc: "\<not> isCollapsed sel"
    define rs where "rs = getValidRanges chk (sel_ranges sel) ''anchorId'' doc"
    define doc' where "doc' = fold (anchorRangeAttributes aid (truthyManualDecorators flags)
                                       (falsyManualDecorators flags)) rs doc"
    have ex: "execute chk cc aid flags doc sel = Inr (doc', sel_ranges sel)"
      by (simp add: doc'_def rs_def execute_non_collapsed_eq[OF nc])
    have idem: "map_of (g (g a)) = map_of (g a)" for a
      unfolding g_def by (rule anchorAttributes_idem)
    have it: "items doc' = fold (\<lambda>r. upd_items g (fst r) (snd r)) rs (items doc)"
      unfolding doc'_def g_def by (rule items_fold_anchorRanges)
    have "map_of (attrsAt doc' off) k = None"
      if "off < maxOffset doc" "inRanges rs off" for off
      using ranges_effect(2)[where g = g, OF it idem that(1)] that(2) gk by simp
    then show "case execute chk cc aid flags doc sel of Inl f \<Rightarrow> False | Inr (doc', ranges') \<Rightarrow>
               \<forall>off<maxOffset doc.
                 inRanges (getValidRanges chk (sel_ranges sel) ''anchorId'' doc) off \<longrightarrow>
                   map_of (attrsAt doc' off) k = None"
      by (simp add: ex rs_def)
  }
  {
    assume c: "sel_ranges sel = [(p, p)] \<and> p \<le> maxOffset doc \<and>
          map_of (sel_attrs sel) ''anchorId'' = None \<and> aid \<noteq> '''' \<and>
          (\<forall>a. cc p (Text aid a)) \<and> (\<forall>a. chk (Text aid a) ''anchorId'') \<and>
          distinct (map fst flags) \<and> k \<noteq> ''anchorId'' \<and> (''anchorId'', True) \<notin> set flags \<and>
          (\<forall>n\<in>set (caretSiblings doc p). getAttribute n ''anchorId'' \<noteq> Some (StrVal aid))"
    then have dist: "distinct (map fst flags)" by blast
    have nt: "(k, True) \<notin> set flags"
      using eq_key_imp_eq_value[OF dist _ k, of True] by auto
    have ins: "\<exists>pre post A.
                  execute chk cc aid flags doc sel = Inr (pre @ [Text aid A] @ post, [(p, p + length aid)]) \<and>
                  maxOffset pre = p \<and> items (pre @ post) = items doc \<and>
                  (length (pre @ post) = length doc \<or> length (pre @ post) = Suc (length doc)) \<and>
                  (\<forall>k. (\<forall>a. chk (Text aid a) k) \<longrightarrow> map_of A k =
                           (if (k, True) \<in> set flags then Some (BoolVal True)
                            else if k = ''anchorId'' then Some (StrVal aid)
                            else map_of (sel_attrs sel) k)) \<and>
                  (\<forall>k. (\<forall>a. \<not> chk (Text aid a) k) \<longrightarrow> map_of A k = None) \<and>
                  (\<forall>k. (k, True) \<notin> set flags \<and> k \<noteq> ''anchorId'' \<longrightarrow>
                         map_of A k = None \<or> map_of A k = map_of (sel_attrs sel) k)"
      by (rule execute_insert_eq) (use c in simp_all)
    then obtain pre post A where
      ex: "execute chk cc aid flags doc sel = Inr (pre @ [Text aid A] @ post, [(p, p + length aid)])"
      and mo: "maxOffset pre = p"
      and q2: "\<forall>k. (\<forall>a. chk (Text aid a) k) \<longrightarrow>
                  map_of A k =
                    (if (k, True) \<in> set flags then Some (BoolVal True)
                     else if k = ''anchorId'' then Some (StrVal aid)
                     else map_of (sel_attrs sel) k)"
      and q1: "\<forall>k. (k, True) \<notin> set flags \<and> k \<noteq> ''anchorId'' \<longrightarrow>
                  map_of A k = None \<or> map_of A k = map_of (sel_attrs sel) k"
      by blast
    have k1: "map_of A k = None \<or> map_of A k = map_of (sel_attrs sel) k"
      using q1 nt c by blast
    have k2: "(\<forall>a. chk (Text aid a) k) \<longrightarrow> map_of A k = map_of (sel_attrs sel) k"
      using q2 nt c by simp
    have at: "attrsAt (pre @ [Text aid A] @ post) off = A" if "p \<le> off \<and> off < p + length aid" for off
      using attrsAt_inserted[OF mo, of off aid A post] that by simp
    show "case execute chk cc aid flags doc sel of Inl f \<Rightarrow> False | Inr (doc', ranges') \<Rightarrow>
               ranges' = [(p, p + length aid)] \<and>
               (\<forall>off. p \<le> off \<and> off < p + length aid \<longrightarrow>
                  (map_of (attrsAt doc' off) k = None \<or>
                   map_of (attrsAt doc' off) k = map_of (sel_attrs sel) k) \<and>
                  ((\<forall>a. chk (Text aid a) k) \<longrightarrow>
                   map_of (attrsAt doc' off) k = map_of (sel_attrs sel) k))"
      unfolding ex using k1 k2 at by (simp del: append.simps)
  }
qed

text \<open>
  For every execution the statement does not hold. On the branch that inserts a text node,
  with a selection that carries \<open>anchorFoo\<close> with the value \<open>false\<close> and the
  decorator \<open>anchorFoo\<close> passed as \<open>false\<close>, the inserted text, which is the range
  selected afterwards, carries \<open>anchorFoo\<close> with the value \<open>false\<close>.
\<close>

theorem execute_false_flag_removes_counterexample:
  "execute allowAll anyPlace ''id1'' [(''anchorFoo'', False)]
     [Text ''ab'' []]
     \<lparr>sel_ranges = [(2, 2)], sel_attrs = [(''anchorFoo'', BoolVal False)]\<rparr>
   = Inr ([Text ''ab'' [],
           Text ''id1'' [(''anchorFoo'', BoolVal False), (''anchorId'', StrVal ''id1'')]],
          [(2, 5)])
   \<and> map_of (attrsAt [Text ''ab'' [],
           Text ''id1'' [(''anchorFoo'', BoolVal False), (''anchorId'', StrVal ''id1'')]] 2)
        ''anchorFoo'' = Some (BoolVal False)"
  by (simp add: execute_def isCollapsed_def getFirstPosition_def sel_hasAttribute_def
        truthyManualDecorators_def falsyManualDecorators_def insertContent_def mergesAt_def
        haveSameAttributes_def allowAll_def anyPlace_def createRangeOn_def startOffset_def
        endOffset_def attrsAt_def)

theorem execute_false_flag_removes_witness:
  "(case execute allowAll anyPlace ''x'' [(''anchorFoo'', False)]
      [Text ''abc'' [(''anchorId'', StrVal ''x''), (''anchorFoo'', BoolVal False)], Text ''c'' []]
      \<lparr>sel_ranges = [(2, 2)], sel_attrs = [(''anchorId'', StrVal ''x'')]\<rparr>
    of Inl f \<Rightarrow> False | Inr (doc', ranges') \<Rightarrow> map_of (attrsAt doc' 0) ''anchorFoo'' = None) \<and>
   (case execute allowAll anyPlace ''x'' [(''anchorFoo'', False)]
      [Text ''abc'' [(''anchorId'', StrVal ''x''), (''anchorFoo'', BoolVal False)], Text ''c'' []]
      \<lparr>sel_ranges = [(2, 4)], sel_attrs = [(''anchorId'', StrVal ''x'')]\<rparr>
    of Inl f \<Rightarrow> False | Inr (doc', ranges') \<Rightarrow> map_of (attrsAt doc' 2) ''anchorFoo'' = None) \<and>
   (case execute allowAll anyPlace ''id1'' [(''anchorFoo'', False)]
      [Text ''ab'' []]
      \<lparr>sel_ranges = [(2, 2)], sel_attrs = [(''anchorFoo'', BoolVal False)]\<rparr>
    of Inl f \<Rightarrow> False | Inr (doc', ranges') \<Rightarrow>
      ranges' = [(2, 5)] \<and> map_of (attrsAt doc' 2) ''anchorFoo'' = Some (BoolVal False))"
proof -
  let ?doc = "[Text ''abc'' [(''anchorId'', StrVal ''x''), (''anchorFoo'', BoolVal False)], Text ''c'' []]"
  let ?sel1 = "\<lparr>sel_ranges = [(2, 2)], sel_attrs = [(''anchorId'', StrVal ''x'')]\<rparr>"
  let ?sel2 = "\<lparr>sel_ranges = [(2, 4)], sel_attrs = [(''anchorId'', StrVal ''x'')]\<rparr>"
  let ?doc3 = "[Text ''ab'' []]"
  let ?sel3 = "\<lparr>sel_ranges = [(2, 2)], sel_attrs = [(''anchorFoo'', BoolVal False)]\<rparr>"
  let ?flags = "[(''anchorFoo'', False)]"
  have far: "findAnchorRange ?doc 2 (Some (StrVal ''x'')) = (0, 3)"
    by (simp add: resolver_simps)
  have gv: "getValidRanges allowAll [(2, 4)] ''anchorId'' ?doc = [(2, 4)]"
    by (simp add: getValidRanges_def allowAll_def)
  have cs: "caretSiblings ?doc3 2 = [Text ''ab'' []]"
    by (simp add: caretSiblings_def)
  have 1: "case execute allowAll anyPlace ''x'' ?flags ?doc ?sel1
           of Inl f \<Rightarrow> False | Inr (doc', ranges') \<Rightarrow> map_of (attrsAt doc' 0) ''anchorFoo'' = None"
    using execute_false_flag_removes[where k = "''anchorFoo''" and flags = ?flags
        and sel = ?sel1 and p = 2 and v = "StrVal ''x''" and doc = ?doc and chk = allowAll
        and cc = anyPlace and aid = "''x''"]
    by (auto simp: far split: sum.splits)
  have 2: "case execute allowAll anyPlace ''x'' ?flags ?doc ?sel2
           of Inl f \<Rightarrow> False | Inr (doc', ranges') \<Rightarrow> map_of (attrsAt doc' 2) ''anchorFoo'' = None"
    using execute_false_flag_removes[where k = "''anchorFoo''" and flags = ?flags
        and sel = ?sel2 and doc = ?doc and chk = allowAll and cc = anyPlace and aid = "''x''"]
    by (auto simp: gv isCollapsed_def split: sum.splits)
  have 3: "case execute allowAll anyPlace ''id1'' ?flags ?doc3 ?sel3
           of Inl f \<Rightarrow> False | Inr (doc', ranges') \<Rightarrow>
             ranges' = [(2, 5)] \<and> map_of (attrsAt doc' 2) ''anchorFoo'' = Some (BoolVal False)"
    using execute_false_flag_removes[where k = "''anchorFoo''" and flags = ?flags
        and sel = ?sel3 and p = 2 and doc = ?doc3 and chk = allowAll and cc = anyPlace
        and aid = "''id1''"]
    by (auto simp: cs allowAll_def anyPlace_def getAttribute_def split: sum.splits)
  from 1 2 3 show ?thesis by blast
qed

text \<open>
  C6. With the empty string as identifier, a collapsed selection and no \<open>anchorId\<close>
  attribute on the selection, \<open>execute\<close> returns the children and the selection as
  they were: the same nodes with the same attributes.
\<close>

theorem execute_empty_id_unchanged:
  assumes "isCollapsed sel" and "\<not> sel_hasAttribute sel ''anchorId''"
  shows "execute chk cc '''' flags doc sel = Inr (doc, sel_ranges sel)"
  using assms by (simp add: execute_def Let_def split: option.splits)

theorem execute_empty_id_unchanged_witness:
  "execute allowAll anyPlace '''' [(''anchorIsExternal'', True)]
     [Text ''ab'' [(''bold'', BoolVal True)], Text ''c'' [(''anchorId'', StrVal ''x'')]]
     \<lparr>sel_ranges = [(1, 1)], sel_attrs = [(''bold'', BoolVal True)]\<rparr>
   = Inr ([Text ''ab'' [(''bold'', BoolVal True)], Text ''c'' [(''anchorId'', StrVal ''x'')]],
          [(1, 1)])"
  using execute_empty_id_unchanged[where sel = "\<lparr>sel_ranges = [(1, 1)], sel_attrs = [(''bold'', BoolVal True)]\<rparr>"
      and chk = allowAll and cc = anyPlace and flags = "[(''anchorIsExternal'', True)]"
      and doc = "[Text ''ab'' [(''bold'', BoolVal True)], Text ''c'' [(''anchorId'', StrVal ''x'')]]"]
  by (simp add: isCollapsed_def sel_hasAttribute_def)

text \<open>
  C7, as amended. The identifier is not empty, the selection is collapsed at offset \<open>p\<close> of
  the parent and has no \<open>anchorId\<close>. The parent accepts the new text at \<open>p\<close>, the schema
  allows \<open>anchorId\<close> on it, no decorator named \<open>anchorId\<close> is passed as \<open>true\<close>, and neither
  node next to the caret carries \<open>anchorId\<close> with the identifier as value, so that the host
  does not merge the new text into a neighbour. Then the command returns, the parent's
  children are the old ones (the node under the caret split at \<open>p\<close>) with one text node
  inserted at \<open>p\<close>, and the new selection is the range on that node. The data of the node is
  the identifier. Its attributes are, for every name the schema allows on the node:
  \<open>true\<close> for a decorator passed as \<open>true\<close>, the identifier for \<open>anchorId\<close>, and the
  selection's attribute for every other name; a name the schema does not allow on the node is
  absent from it, a decorator passed as \<open>true\<close> included.
\<close>

theorem execute_inserts_text:
  assumes "sel_ranges sel = [(p, p)]" and "p \<le> maxOffset doc"
    and "map_of (sel_attrs sel) ''anchorId'' = None" and "aid \<noteq> ''''"
    and "\<And>a. cc p (Text aid a)"
    and "\<And>a. chk (Text aid a) ''anchorId''"
    and "(''anchorId'', True) \<notin> set flags"
    and "\<forall>n\<in>set (caretSiblings doc p). getAttribute n ''anchorId'' \<noteq> Some (StrVal aid)"
  shows "\<exists>pre post A.
           execute chk cc aid flags doc sel = Inr (pre @ [Text aid A] @ post, [(p, p + length aid)]) \<and>
           maxOffset pre = p \<and> items (pre @ post) = items doc \<and>
           (length (pre @ post) = length doc \<or> length (pre @ post) = Suc (length doc)) \<and>
           (\<forall>k. (\<forall>a. chk (Text aid a) k) \<longrightarrow> map_of A k =
                    (if (k, True) \<in> set flags then Some (BoolVal True)
                     else if k = ''anchorId'' then Some (StrVal aid)
                     else map_of (sel_attrs sel) k)) \<and>
           (\<forall>k. (\<forall>a. \<not> chk (Text aid a) k) \<longrightarrow> map_of A k = None)"
proof -
  have "\<exists>pre post A.
           execute chk cc aid flags doc sel = Inr (pre @ [Text aid A] @ post, [(p, p + length aid)]) \<and>
           maxOffset pre = p \<and> items (pre @ post) = items doc \<and>
           (length (pre @ post) = length doc \<or> length (pre @ post) = Suc (length doc)) \<and>
           (\<forall>k. (\<forall>a. chk (Text aid a) k) \<longrightarrow> map_of A k =
                    (if (k, True) \<in> set flags then Some (BoolVal True)
                     else if k = ''anchorId'' then Some (StrVal aid)
                     else map_of (sel_attrs sel) k)) \<and>
           (\<forall>k. (\<forall>a. \<not> chk (Text aid a) k) \<longrightarrow> map_of A k = None) \<and>
           (\<forall>k. (k, True) \<notin> set flags \<and> k \<noteq> ''anchorId'' \<longrightarrow>
                  map_of A k = None \<or> map_of A k = map_of (sel_attrs sel) k)"
    using assms by (rule execute_insert_eq)
  then obtain pre post A where
    "execute chk cc aid flags doc sel = Inr (pre @ [Text aid A] @ post, [(p, p + length aid)])"
    "maxOffset pre = p" "items (pre @ post) = items doc"
    "length (pre @ post) = length doc \<or> length (pre @ post) = Suc (length doc)"
    "\<forall>k. (\<forall>a. chk (Text aid a) k) \<longrightarrow> map_of A k =
                    (if (k, True) \<in> set flags then Some (BoolVal True)
                     else if k = ''anchorId'' then Some (StrVal aid)
                     else map_of (sel_attrs sel) k)"
    "\<forall>k. (\<forall>a. \<not> chk (Text aid a) k) \<longrightarrow> map_of A k = None"
    by blast
  then show ?thesis by blast
qed

text \<open>
  Without the condition on the schema the statement does not hold. Under the schema as this
  plugin declares it, the decorator \<open>anchorIsExternal\<close> passed as \<open>true\<close> is not on
  the inserted text: the host has removed it.
\<close>

theorem execute_inserts_text_counterexample:
  "execute anchorSchema anyPlace ''id1'' [(''anchorIsExternal'', True)]
     [Text ''abcd'' []]
     \<lparr>sel_ranges = [(2, 2)], sel_attrs = []\<rparr>
   = Inr ([Text ''ab'' [], Text ''id1'' [(''anchorId'', StrVal ''id1'')], Text ''cd'' []],
          [(2, 5)])
   \<and> map_of (attrsAt [Text ''ab'' [], Text ''id1'' [(''anchorId'', StrVal ''id1'')],
                      Text ''cd'' []] 2) ''anchorIsExternal'' = None"
  by (simp add: execute_def isCollapsed_def getFirstPosition_def sel_hasAttribute_def
        truthyManualDecorators_def falsyManualDecorators_def insertContent_def mergesAt_def
        haveSameAttributes_def anchorSchema_def anyPlace_def createRangeOn_def startOffset_def
        endOffset_def attrsAt_def)

theorem execute_inserts_text_witness:
  "(\<exists>pre post A.
      execute allowAll anyPlace ''id1'' [(''anchorIsExternal'', True), (''anchorFoo'', False)]
        [Text ''abcd'' [(''bold'', BoolVal True)]]
        \<lparr>sel_ranges = [(2, 2)], sel_attrs = [(''bold'', BoolVal True)]\<rparr>
        = Inr (pre @ [Text ''id1'' A] @ post, [(2, 5)]) \<and>
      maxOffset pre = 2 \<and>
      items (pre @ post) = items [Text ''abcd'' [(''bold'', BoolVal True)]] \<and>
      map_of A ''anchorId'' = Some (StrVal ''id1'') \<and>
      map_of A ''anchorIsExternal'' = Some (BoolVal True) \<and>
      map_of A ''bold'' = Some (BoolVal True) \<and>
      map_of A ''anchorFoo'' = None)"
proof -
  let ?doc = "[Text ''abcd'' [(''bold'', BoolVal True)]]"
  let ?sel = "\<lparr>sel_ranges = [(2, 2)], sel_attrs = [(''bold'', BoolVal True)]\<rparr>"
  let ?flags = "[(''anchorIsExternal'', True), (''anchorFoo'', False)]"
  have cs: "caretSiblings ?doc 2 = [Text ''ab'' [(''bold'', BoolVal True)], Text ''cd'' [(''bold'', BoolVal True)]]"
    by (simp add: caretSiblings_def)
  from execute_inserts_text[where sel = ?sel and p = 2 and doc = ?doc and aid = "''id1''"
      and cc = anyPlace and chk = allowAll and flags = ?flags]
  obtain pre post A where
    ex: "execute allowAll anyPlace ''id1'' ?flags ?doc ?sel = Inr (pre @ [Text ''id1'' A] @ post, [(2, 5)])"
    and mo: "maxOffset pre = 2" and it: "items (pre @ post) = items ?doc"
    and q: "\<forall>k. map_of A k =
               (if (k, True) \<in> set ?flags then Some (BoolVal True)
                else if k = ''anchorId'' then Some (StrVal ''id1'')
                else map_of (sel_attrs ?sel) k)"
    by (auto simp: cs allowAll_def anyPlace_def getAttribute_def)
  have "map_of A ''anchorId'' = Some (StrVal ''id1'')" using q by simp
  moreover have "map_of A ''anchorIsExternal'' = Some (BoolVal True)" using q by simp
  moreover have "map_of A ''bold'' = Some (BoolVal True)" using q by simp
  moreover have "map_of A ''anchorFoo'' = None" using q by simp
  ultimately show ?thesis using ex mo it by blast
qed

text \<open>
  C10. The identifier is the empty string and the selection is collapsed inside an anchor:
  no decorator is named twice and none is named \<open>anchorId\<close>. The command is not a no-op: it
  takes the branch of the resolved span, and on every offset of the span it sets \<open>anchorId\<close>
  to the empty string, sets every decorator passed as \<open>true\<close> to \<open>true\<close>, removes every
  decorator passed as \<open>false\<close>, and keeps every other attribute; outside the span and in the
  content nothing changes, and the selection becomes the span. When the span is not the
  caret's empty range the result differs from the input.
\<close>

theorem execute_empty_id_in_anchor:
  assumes sel: "sel_ranges sel = [(p, p)]"
    and has: "map_of (sel_attrs sel) ''anchorId'' = Some v"
    and dist: "distinct (map fst flags)"
    and noid: "''anchorId'' \<notin> fst ` set flags"
  shows "case findAnchorRange doc p (Some v) of (s, e) \<Rightarrow>
         case execute chk cc '''' flags doc sel of Inl f \<Rightarrow> False | Inr (doc', ranges') \<Rightarrow>
           ranges' = [(s, e)] \<and>
           maxOffset doc' = maxOffset doc \<and>
           (\<forall>off<maxOffset doc.
              contentAt doc' off = contentAt doc off \<and>
              (if s \<le> off \<and> off < e
               then map_of (attrsAt doc' off) ''anchorId'' = Some (StrVal '''') \<and>
                    (\<forall>(k, b)\<in>set flags.
                       map_of (attrsAt doc' off) k = (if b then Some (BoolVal True) else None)) \<and>
                    (\<forall>k. k \<noteq> ''anchorId'' \<and> k \<notin> fst ` set flags \<longrightarrow>
                       map_of (attrsAt doc' off) k = map_of (attrsAt doc off) k)
               else attrsAt doc' off = attrsAt doc off)) \<and>
           ((s, e) \<noteq> (p, p) \<longrightarrow> (doc', ranges') \<noteq> (doc, sel_ranges sel))"
proof -
  obtain s e where r: "findAnchorRange doc p (Some v) = (s, e)"
    by (cases "findAnchorRange doc p (Some v)")
  define doc' where "doc' = anchorRangeAttributes '''' (truthyManualDecorators flags)
                              (falsyManualDecorators flags) (s, e) doc"
  have ex: "execute chk cc '''' flags doc sel = Inr (doc', [(s, e)])"
    using sel has by (simp add: execute_collapsed_eq r doc'_def)
  have eff: "case findAnchorRange doc p (Some v) of (s, e) \<Rightarrow>
         case execute chk cc '''' flags doc sel of Inl f \<Rightarrow> False | Inr (doc', ranges') \<Rightarrow>
           ranges' = [(s, e)] \<and>
           maxOffset doc' = maxOffset doc \<and>
           (\<forall>off<maxOffset doc.
              contentAt doc' off = contentAt doc off \<and>
              (if s \<le> off \<and> off < e
               then map_of (attrsAt doc' off) ''anchorId'' = Some (StrVal '''') \<and>
                    (\<forall>(k, b)\<in>set flags.
                       map_of (attrsAt doc' off) k = (if b then Some (BoolVal True) else None)) \<and>
                    (\<forall>k. k \<noteq> ''anchorId'' \<and> k \<notin> fst ` set flags \<longrightarrow>
                       map_of (attrsAt doc' off) k = map_of (attrsAt doc off) k)
               else attrsAt doc' off = attrsAt doc off))"
    using sel has dist noid by (rule execute_collapsed_effect)
  have "(s, e) \<noteq> (p, p) \<longrightarrow> (doc', [(s, e)]) \<noteq> (doc, sel_ranges sel)"
    using sel by auto
  with eff show ?thesis
    unfolding r ex by simp
qed

theorem execute_empty_id_in_anchor_witness:
  "case execute allowAll anyPlace '''' [(''anchorIsExternal'', True), (''anchorFoo'', False)]
      [Text ''ab'' [], Text ''cd'' [(''anchorId'', StrVal ''x''), (''anchorFoo'', BoolVal True),
                                   (''bold'', BoolVal True)], Text ''e'' []]
      \<lparr>sel_ranges = [(3, 3)], sel_attrs = [(''anchorId'', StrVal ''x'')]\<rparr>
   of Inl f \<Rightarrow> False | Inr (doc', ranges') \<Rightarrow>
     ranges' = [(2, 4)] \<and> maxOffset doc' = 5 \<and>
     map_of (attrsAt doc' 2) ''anchorId'' = Some (StrVal '''') \<and>
     map_of (attrsAt doc' 3) ''anchorId'' = Some (StrVal '''') \<and>
     map_of (attrsAt doc' 2) ''anchorIsExternal'' = Some (BoolVal True) \<and>
     map_of (attrsAt doc' 3) ''anchorIsExternal'' = Some (BoolVal True) \<and>
     map_of (attrsAt doc' 2) ''anchorFoo'' = None \<and>
     map_of (attrsAt doc' 3) ''anchorFoo'' = None \<and>
     map_of (attrsAt doc' 2) ''bold'' = Some (BoolVal True) \<and>
     attrsAt doc' 0 = [] \<and> attrsAt doc' 4 = [] \<and>
     contentAt doc' 3 = contentAt [Text ''ab'' [], Text ''cd'' [], Text ''e'' []] 3 \<and>
     ranges' \<noteq> [(3, 3)]"
proof -
  let ?doc = "[Text ''ab'' [], Text ''cd'' [(''anchorId'', StrVal ''x''), (''anchorFoo'', BoolVal True),
                                   (''bold'', BoolVal True)], Text ''e'' []]"
  let ?sel = "\<lparr>sel_ranges = [(3, 3)], sel_attrs = [(''anchorId'', StrVal ''x'')]\<rparr>"
  let ?flags = "[(''anchorIsExternal'', True), (''anchorFoo'', False)]"
  have far: "findAnchorRange ?doc 3 (Some (StrVal ''x'')) = (2, 4)"
    by (simp add: resolver_simps)
  have at: "attrsAt ?doc 0 = []" "attrsAt ?doc 4 = []"
       "attrsAt ?doc 2 = [(''anchorId'', StrVal ''x''), (''anchorFoo'', BoolVal True), (''bold'', BoolVal True)]"
       "contentAt ?doc 3 = contentAt [Text ''ab'' [], Text ''cd'' [], Text ''e'' []] 3"
    by (simp_all add: attrsAt_def contentAt_def items_def eval_nat_numeral)
  have "0 < maxOffset ?doc" "2 < maxOffset ?doc" "3 < maxOffset ?doc" "4 < maxOffset ?doc"
    by simp_all
  with execute_empty_id_in_anchor[where sel = ?sel and p = 3 and v = "StrVal ''x''"
        and flags = ?flags and doc = ?doc and chk = allowAll and cc = anyPlace] at
  show ?thesis
    unfolding far by (auto simp: All_less_Suc eval_nat_numeral split: sum.splits prod.splits)
qed

end
